theory Spec2Isabelle
  imports Main "HOL-Library.Word"
begin

section \<open>Data model of the Logger class (logger.h)\<close>

text \<open>
  The target is a 32-bit ARM Cortex-M: \<open>uint16_t\<close> values are 16-bit words, \<open>char\<close> is
  an 8-bit byte, and every arithmetic expression on \<open>uint16_t\<close> operands is computed
  after integer promotion in 32 bits and truncated where it is stored back into a
  \<open>uint16_t\<close>.
\<close>

type_synonym uint16_t = "16 word"
type_synonym c_int = "32 word"
type_synonym c_char = "8 word"

text \<open>\<open>static constexpr uint16_t SEND_BUFFER_SIZE = 512U\<close>\<close>

definition SEND_BUFFER_SIZE :: uint16_t where
  "SEND_BUFFER_SIZE = 512"

text \<open>
  The fields of \<open>class Logger\<close>, in the order of their declaration, followed by the
  state of the external UART/DMA transmitter the logger talks to:
  \<^item> \<open>hal_calls\<close>: every invocation of \<open>HAL_UART_Transmit_DMA\<close>, as the pair
    (offset of \<open>pData\<close> in \<open>m_send_buffer\<close>, \<open>Size\<close>), in call order;
  \<^item> \<open>hal_inflight\<close>: the request the transmitter is working on, if any;
  \<^item> \<open>hal_wire\<close>: the bytes of the completed transfers, in the order they left the buffer.
\<close>

record logger =
  m_read_pos :: uint16_t
  m_new_read_pos :: uint16_t
  m_send_buffer :: "c_char list"
  m_is_sending :: bool
  m_write_pos :: uint16_t
  m_enqueue_guard :: uint16_t
  m_missed_count :: uint16_t
  m_uart :: nat
  hal_calls :: "(nat \<times> nat) list"
  hal_inflight :: "(nat \<times> nat) option"
  hal_wire :: "c_char list"

text \<open>
  \<open>Logger logger;\<close> is a global: it is zero-initialised before its default member
  initialisers run, so both cursors without an initialiser start at 0 as well.
\<close>

definition logger_global :: logger where
  "logger_global =
     \<lparr> m_read_pos = 0, m_new_read_pos = 0,
       m_send_buffer = replicate (unat SEND_BUFFER_SIZE) 0,
       m_is_sending = False, m_write_pos = 0, m_enqueue_guard = 0, m_missed_count = 0,
       m_uart = 0, hal_calls = [], hal_inflight = None, hal_wire = [] \<rparr>"

section \<open>The external transmitter\<close>

text \<open>
  Modelled from the spec: the hardware-transmit capability \<open>transmit(buffer_pointer,
  byte_count)\<close> of section 6 (\<open>HAL_UART_Transmit_DMA\<close> of the vendor library, which is
  not part of the repository). The request is asynchronous; a request made while another
  one is outstanding is not taken up (the vendor function answers \<open>HAL_BUSY\<close>, which the
  logger does not look at).
\<close>

definition HAL_UART_Transmit_DMA :: "logger \<Rightarrow> nat \<Rightarrow> uint16_t \<Rightarrow> logger" where
  "HAL_UART_Transmit_DMA s offset Size =
     s\<lparr> hal_calls := hal_calls s @ [(offset, unat Size)],
        hal_inflight := (case hal_inflight s of
                           None \<Rightarrow> Some (offset, unat Size)
                         | Some r \<Rightarrow> Some r) \<rparr>"

section \<open>Operations (logger.cpp, logger.h)\<close>

text \<open>
  \<open>ATOMIC_INCH\<close> and \<open>ATOMIC_DECH\<close>: a load-exclusive, an addition in \<open>int\<close> and a
  store-exclusive of the low half-word, repeated until the store succeeds. The calls are
  modelled one after the other (no preemption inside a call), where the store-exclusive
  succeeds at its first attempt.
\<close>

definition ATOMIC_INCH :: "uint16_t \<Rightarrow> uint16_t" where
  "ATOMIC_INCH val = ucast ((ucast val :: c_int) + 1)"

definition ATOMIC_DECH :: "uint16_t \<Rightarrow> uint16_t" where
  "ATOMIC_DECH val = ucast ((ucast val :: c_int) - 1)"

definition init :: "logger \<Rightarrow> nat \<Rightarrow> logger" where
  "init s huart = s\<lparr> m_uart := huart \<rparr>"

definition getUARTHandle :: "logger \<Rightarrow> nat" where
  "getUARTHandle s = m_uart s"

definition getMissedCount :: "logger \<Rightarrow> uint16_t" where
  "getMissedCount s = m_missed_count s"

text \<open>\<open>availableSpace\<close> (logger.h:244): the subtraction of \<open>1U\<close> is unsigned, in 32 bits.\<close>

definition availableSpace :: "logger \<Rightarrow> uint16_t \<Rightarrow> uint16_t" where
  "availableSpace s write_pos =
     (if write_pos \<ge> m_read_pos s
      then ucast ((ucast SEND_BUFFER_SIZE :: c_int)
                    - (ucast write_pos - ucast (m_read_pos s)) - 1)
      else ucast ((ucast (m_read_pos s) :: c_int) - ucast write_pos - 1))"

text \<open>\<open>advancePos\<close> (logger.h:252)\<close>

definition advancePos :: "uint16_t \<Rightarrow> uint16_t \<Rightarrow> uint16_t" where
  "advancePos pos step =
     ucast (((ucast pos :: c_int) + ucast step) mod ucast SEND_BUFFER_SIZE)"

text \<open>
  The three copy loops of \<open>enqueue\<close> (logger.cpp:83, 90, 95) have one shape:
  \<open>while (i < bound) m_send_buffer[write_pos++] = str[i++];\<close>. The function returns the
  buffer and the two counters as the loop leaves them. An index outside its array is
  undefined behaviour in C; the results below are about well-formed states and strings
  of at least \<open>length\<close> bytes, where every index the loops use is inside its array.
\<close>

function copy_loop ::
  "c_char list \<Rightarrow> c_char list \<Rightarrow> uint16_t \<Rightarrow> uint16_t \<Rightarrow> uint16_t
     \<Rightarrow> c_char list \<times> uint16_t \<times> uint16_t" where
  "copy_loop buf str i bound write_pos =
     (if i < bound
      then copy_loop (buf[unat write_pos := str ! unat i]) str (i + 1) bound (write_pos + 1)
      else (buf, i, write_pos))"
  by pat_completeness auto
termination
proof (relation "measure (\<lambda>(buf, str, i, bound, write_pos). unat bound - unat i)")
  show "wf (measure (\<lambda>(buf, str, i, bound, write_pos). unat bound - unat i))"
    by simp
next
  fix buf str :: "c_char list" and i bound write_pos :: uint16_t
  assume lt: "i < bound"
  then have "unat (i + 1) = Suc (unat i)"
    by unat_arith
  moreover from lt have "unat i < unat bound"
    by (simp add: word_less_nat_alt)
  ultimately show
    "((buf[unat write_pos := str ! unat i], str, i + 1, bound, write_pos + 1),
      (buf, str, i, bound, write_pos))
       \<in> measure (\<lambda>(buf, str, i, bound, write_pos). unat bound - unat i)"
    by simp
qed

declare copy_loop.simps [simp del]

text \<open>\<open>startTransfer\<close> (logger.cpp:118)\<close>

definition startTransfer :: "logger \<Rightarrow> logger" where
  "startTransfer s =
     (let send_pos = m_write_pos s in
      if send_pos \<noteq> m_read_pos s \<and> m_enqueue_guard s = 0
      then
        let s1 = s\<lparr> m_is_sending := True \<rparr> in
        if send_pos > m_read_pos s1
        then HAL_UART_Transmit_DMA (s1\<lparr> m_new_read_pos := send_pos \<rparr>)
               (unat (m_read_pos s1))
               (ucast ((ucast send_pos :: c_int) - ucast (m_read_pos s1)))
        else HAL_UART_Transmit_DMA (s1\<lparr> m_new_read_pos := 0 \<rparr>)
               (unat (m_read_pos s1))
               (ucast ((ucast SEND_BUFFER_SIZE :: c_int) - ucast (m_read_pos s1)))
      else s\<lparr> m_is_sending := False \<rparr>)"

text \<open>
  \<open>process\<close> (logger.cpp:108). \<open>isInISR()\<close> reads the processor's exception number;
  it is the parameter \<open>in_isr\<close>, the context the call is made from.
\<close>

definition process :: "logger \<Rightarrow> bool \<Rightarrow> logger" where
  "process s in_isr = (if m_is_sending s \<or> in_isr then s else startTransfer s)"

text \<open>\<open>enqueue\<close> (logger.cpp:64); \<open>len\<close> is the parameter \<open>length\<close>.\<close>

definition enqueue :: "logger \<Rightarrow> c_char list \<Rightarrow> uint16_t \<Rightarrow> bool \<Rightarrow> logger" where
  "enqueue s str len in_isr =
     (let s1 = s\<lparr> m_enqueue_guard := ATOMIC_INCH (m_enqueue_guard s) \<rparr>;
          write_pos = m_write_pos s1;
          new_write_pos = (if availableSpace s1 write_pos \<ge> len
                           then advancePos write_pos len else write_pos);
          s2 = s1\<lparr> m_write_pos := new_write_pos \<rparr>;
          s3 = (if write_pos \<noteq> new_write_pos
                then
                  (if new_write_pos > write_pos
                   then
                     (case copy_loop (m_send_buffer s2) str 0 len write_pos of
                        (buf, i, wp) \<Rightarrow> s2\<lparr> m_send_buffer := buf \<rparr>)
                   else
                     (let till_end_count =
                            (ucast ((ucast SEND_BUFFER_SIZE :: c_int) - ucast write_pos)
                               :: uint16_t)
                      in case copy_loop (m_send_buffer s2) str 0 till_end_count write_pos of
                           (buf, i, wp) \<Rightarrow>
                             (case copy_loop buf str i len 0 of
                                (buf', i', wp') \<Rightarrow> s2\<lparr> m_send_buffer := buf' \<rparr>)))
                else s2\<lparr> m_missed_count := ATOMIC_INCH (m_missed_count s2) \<rparr>);
          s4 = s3\<lparr> m_enqueue_guard := ATOMIC_DECH (m_enqueue_guard s3) \<rparr>
      in process s4 in_isr)"

text \<open>
  \<open>transferCompletedCallback\<close> (logger.cpp:143), with the single global instance as the
  logger it compares the handle against.
\<close>

definition transferCompletedCallback :: "logger \<Rightarrow> nat \<Rightarrow> logger" where
  "transferCompletedCallback s huart =
     (if huart = getUARTHandle s
      then startTransfer (s\<lparr> m_read_pos := m_new_read_pos s \<rparr>)
      else s)"

text \<open>
  Modelled from the spec: the completion notification of section 6, fired once for the
  outstanding request after its bytes have left the buffer. The bytes are read from the
  buffer as it is when the transfer completes (\<open>inflight_bytes_stable\<close> below: they are
  the bytes it held when the request was made); the transmitter is free again before
  the callback registered by \<open>init\<close> runs.
\<close>

definition hal_complete :: "logger \<Rightarrow> logger" where
  "hal_complete s =
     (case hal_inflight s of
        None \<Rightarrow> s
      | Some (offset, n) \<Rightarrow>
          transferCompletedCallback
            (s\<lparr> hal_inflight := None,
               hal_wire := hal_wire s @ take n (drop offset (m_send_buffer s)) \<rparr>)
            (m_uart s))"

section \<open>Well-formed states, occupancy, runs\<close>

text \<open>
  The declarations make \<open>m_send_buffer\<close> an array of \<open>SEND_BUFFER_SIZE\<close> bytes and the
  two cursors indices into it.
\<close>

definition logger_wf :: "logger \<Rightarrow> bool" where
  "logger_wf s \<longleftrightarrow>
     length (m_send_buffer s) = unat SEND_BUFFER_SIZE
     \<and> m_read_pos s < SEND_BUFFER_SIZE \<and> m_write_pos s < SEND_BUFFER_SIZE"

text \<open>
  The number of bytes of the circular region that starts at \<open>read_pos\<close> and ends before
  \<open>write_pos\<close>.
\<close>

definition occupied :: "uint16_t \<Rightarrow> uint16_t \<Rightarrow> nat" where
  "occupied read_pos write_pos =
     (unat write_pos + unat SEND_BUFFER_SIZE - unat read_pos) mod unat SEND_BUFFER_SIZE"

text \<open>
  The copy as the specification words it: \<open>length\<close> bytes are copied into the storage
  from the old write cursor on, wrapping circularly if the destination range crosses the
  end of the storage, split into two linear copies: up to the boundary, then from index 0.
  \<open>linear_copy\<close> is meant for a range that ends inside the buffer.
\<close>

definition linear_copy :: "c_char list \<Rightarrow> nat \<Rightarrow> c_char list \<Rightarrow> c_char list" where
  "linear_copy buf pos bytes = take pos buf @ bytes @ drop (pos + length bytes) buf"

definition circular_copy :: "c_char list \<Rightarrow> nat \<Rightarrow> c_char list \<Rightarrow> c_char list" where
  "circular_copy buf pos bytes =
     (if pos + length bytes \<le> length buf
      then linear_copy buf pos bytes
      else linear_copy (linear_copy buf pos (take (length buf - pos) bytes))
             0 (drop (length buf - pos) bytes))"

text \<open>
  What can happen to the logger, one call at a time: a call of \<open>enqueue\<close> (through one
  of the log functions) or of \<open>process\<close>, from the main loop or from an interrupt
  handler, and the completion of the outstanding transfer.
\<close>

datatype event =
    Enqueue "c_char list" uint16_t bool
  | Process bool
  | TransferComplete

fun apply_event :: "logger \<Rightarrow> event \<Rightarrow> logger" where
  "apply_event s (Enqueue str len in_isr) = enqueue s str len in_isr"
| "apply_event s (Process in_isr) = process s in_isr"
| "apply_event s TransferComplete = hal_complete s"

text \<open>
  An \<open>enqueue\<close> call fits when its length is at most the available space at the time of
  the call; \<open>str\<close> holds at least \<open>len\<close> bytes.
\<close>

fun event_fits :: "logger \<Rightarrow> event \<Rightarrow> bool" where
  "event_fits s (Enqueue str len in_isr) =
     (len \<le> availableSpace s (m_write_pos s) \<and> unat len \<le> length str)"
| "event_fits s (Process in_isr) = True"
| "event_fits s TransferComplete = True"

fun run :: "logger \<Rightarrow> event list \<Rightarrow> logger" where
  "run s [] = s"
| "run s (e # es) = run (apply_event s e) es"

fun run_fits :: "logger \<Rightarrow> event list \<Rightarrow> bool" where
  "run_fits s [] = True"
| "run_fits s (e # es) = (event_fits s e \<and> run_fits (apply_event s e) es)"

text \<open>The bytes of the enqueued messages, in call order.\<close>

fun messages :: "event list \<Rightarrow> c_char list" where
  "messages [] = []"
| "messages (Enqueue str len in_isr # es) = take (unat len) str @ messages es"
| "messages (Process in_isr # es) = messages es"
| "messages (TransferComplete # es) = messages es"

text \<open>
  Letting the transmitter finish: one kick from the main loop, then the completions of
  the transfer in progress and of the transfers chained to it.
\<close>

definition drain :: "logger \<Rightarrow> logger" where
  "drain s = hal_complete (hal_complete (hal_complete (process s False)))"

text \<open>
  The step relation of the logger: any call of \<open>enqueue\<close>, \<open>process\<close>,
  \<open>startTransfer\<close> or the completion callback, and the completion of a transfer.
  A trace lists the states of an execution, the latest first.
\<close>

inductive logger_step :: "logger \<Rightarrow> logger \<Rightarrow> bool" where
  step_enqueue: "unat len \<le> length str \<Longrightarrow> logger_step s (enqueue s str len in_isr)"
| step_process: "logger_step s (process s in_isr)"
| step_startTransfer: "logger_step s (startTransfer s)"
| step_callback: "logger_step s (transferCompletedCallback s huart)"
| step_complete: "logger_step s (hal_complete s)"

inductive trace :: "logger list \<Rightarrow> bool" where
  trace_init: "trace [init logger_global huart]"
| trace_step: "trace (s # tr) \<Longrightarrow> logger_step s s' \<Longrightarrow> trace (s' # s # tr)"

text \<open>
  The cursors are indices of the buffer, and the pending read cursor lies in the
  circular region from the read cursor to the write cursor.
\<close>

definition cursors_ok :: "logger \<Rightarrow> bool" where
  "cursors_ok s \<longleftrightarrow>
     logger_wf s \<and> m_new_read_pos s < SEND_BUFFER_SIZE
     \<and> occupied (m_read_pos s) (m_new_read_pos s) \<le> occupied (m_read_pos s) (m_write_pos s)"

text \<open>
  The \<open>n\<close> bytes of the buffer from index \<open>start\<close> on, read circularly, and the bytes
  that are queued in a state: those from the read cursor up to the write cursor.
\<close>

definition ring_read :: "c_char list \<Rightarrow> nat \<Rightarrow> nat \<Rightarrow> c_char list" where
  "ring_read buf start n = map (\<lambda>k. buf ! ((start + k) mod length buf)) [0 ..< n]"

definition pending :: "logger \<Rightarrow> c_char list" where
  "pending s =
     ring_read (m_send_buffer s) (unat (m_read_pos s))
       (occupied (m_read_pos s) (m_write_pos s))"

text \<open>
  The states of a run of whole calls: no \<open>enqueue\<close> is under way, \<open>m_is_sending\<close> says
  whether the transmitter works on a request, and that request is a nonempty range of
  queued bytes that starts at the read cursor, ends inside the storage and ends where the
  pending read cursor points.
\<close>

definition run_inv :: "logger \<Rightarrow> bool" where
  "run_inv s \<longleftrightarrow>
     logger_wf s \<and> m_enqueue_guard s = 0
     \<and> (m_is_sending s \<longleftrightarrow> hal_inflight s \<noteq> None)
     \<and> (case hal_inflight s of
          None \<Rightarrow> True
        | Some (offset, n) \<Rightarrow>
            offset = unat (m_read_pos s) \<and> 0 < n \<and> offset + n \<le> unat SEND_BUFFER_SIZE
            \<and> n \<le> occupied (m_read_pos s) (m_write_pos s)
            \<and> unat (m_new_read_pos s) = (offset + n) mod unat SEND_BUFFER_SIZE)"

text \<open>
  A bound on the completions it takes to empty the buffer, and the states in which an
  idle transmitter means an empty buffer.
\<close>

definition transfers_left :: "logger \<Rightarrow> nat" where
  "transfers_left s =
     (case hal_inflight s of
        None \<Rightarrow> 0
      | Some q \<Rightarrow>
          if m_new_read_pos s = m_write_pos s then 1
          else if m_new_read_pos s < m_write_pos s then 2 else 3)"

definition settled :: "logger \<Rightarrow> bool" where
  "settled s \<longleftrightarrow> (hal_inflight s = None \<longrightarrow> m_write_pos s = m_read_pos s)"

section \<open>Machine arithmetic\<close>

lemma u16_bound: "unat (x :: uint16_t) < 65536"
  using unsigned_less [of x] by simp

lemma unat_up: "unat (ucast (x :: uint16_t) :: c_int) = unat x"
  using u16_bound [of x] by (simp add: unsigned_ucast_eq take_bit_eq_mod)

lemma unat_down: "unat (ucast (x :: c_int) :: uint16_t) = unat x mod 65536"
  by (simp add: unsigned_ucast_eq take_bit_eq_mod)

lemma c_int_sub: "unat b \<le> unat a \<Longrightarrow> unat (a - b) = unat a - unat b" for a b :: c_int
  by (simp add: unat_sub word_le_nat_alt)

lemma ucast_minus_one: "(ucast (- 1 :: c_int) :: uint16_t) = - 1"
  by (simp add: word_unat_eq_iff unat_down unsigned_minus_1_eq_mask mask_eq_exp_minus_1)

lemma ATOMIC_INCH_eq: "ATOMIC_INCH v = v + 1"
proof -
  have "unat (ucast ((ucast v :: c_int) + 1) :: uint16_t) = (unat v + 1) mod 65536"
    using u16_bound [of v] by (simp add: unat_down unat_word_ariths unat_up)
  also have "\<dots> = unat (v + 1)"
    by (simp add: unat_word_ariths)
  finally show ?thesis
    unfolding ATOMIC_INCH_def by (simp add: word_unat_eq_iff)
qed

lemma ATOMIC_DECH_eq: "ATOMIC_DECH v = v - 1"
proof (cases "v = 0")
  case True
  then show ?thesis unfolding ATOMIC_DECH_def by (simp add: ucast_minus_one)
next
  case False
  then have pos: "1 \<le> unat v"
    by (metis One_nat_def Suc_leI unat_gt_0 word_neq_0_conv)
  have "unat (1 :: c_int) \<le> unat (ucast v :: c_int)"
    using pos by (simp add: unat_up)
  then have "unat ((ucast v :: c_int) - 1) = unat v - 1"
    by (simp add: unat_sub word_le_nat_alt unat_up)
  then have "unat (ucast ((ucast v :: c_int) - 1) :: uint16_t) = unat v - 1"
    using u16_bound [of v] by (simp only: unat_down) simp
  also have "\<dots> = unat (v - 1)"
    using False by (simp add: unat_minus_one)
  finally show ?thesis
    unfolding ATOMIC_DECH_def by (simp add: word_unat_eq_iff)
qed

lemma occ_linear: "r \<le> w \<Longrightarrow> w < 512 \<Longrightarrow> (w + 512 - r) mod 512 = w - r" for r w :: nat
  by (metis Nat.add_diff_assoc2 add.commute mod_add_self1 mod_less less_imp_diff_less)

lemma occ_wrapped: "w < r \<Longrightarrow> r < 512 \<Longrightarrow> (w + 512 - r) mod 512 = w + 512 - r"
  for r w :: nat
  by simp

lemma c_int_avail_linear:
  fixes R W :: c_int
  assumes "unat R \<le> unat W" "unat W < 512"
  shows "unat (512 - (W - R) - 1) = 511 - (unat W - unat R)"
proof -
  have a: "unat (W - R) = unat W - unat R"
    using assms by (rule_tac c_int_sub)
  have b: "unat (512 - (W - R)) = 512 - (unat W - unat R)"
    using assms a by (subst c_int_sub) simp_all
  have c: "unat (1 :: c_int) \<le> unat (512 - (W - R))"
    unfolding b using assms by simp
  show ?thesis
    unfolding c_int_sub [OF c] b using assms by simp
qed

lemma c_int_avail_wrapped:
  fixes R W :: c_int
  assumes "unat W < unat R" "unat R < 512"
  shows "unat (R - W - 1) = unat R - unat W - 1"
proof -
  have a: "unat (R - W) = unat R - unat W"
    using assms by (simp add: c_int_sub)
  have c: "unat (1 :: c_int) \<le> unat (R - W)"
    unfolding a using assms by simp
  show ?thesis
    unfolding c_int_sub [OF c] a using assms by simp
qed

lemma unat_availableSpace:
  assumes "unat (m_read_pos s) < 512" "unat w < 512"
  shows "unat (availableSpace s w) = 511 - (unat w + 512 - unat (m_read_pos s)) mod 512"
proof (cases "m_read_pos s \<le> w")
  case True
  then have le: "unat (m_read_pos s) \<le> unat w"
    by (simp add: word_le_nat_alt)
  have "availableSpace s w = ucast ((512 :: c_int) - (ucast w - ucast (m_read_pos s)) - 1)"
    using True unfolding availableSpace_def SEND_BUFFER_SIZE_def by simp
  then have "unat (availableSpace s w) = (511 - (unat w - unat (m_read_pos s))) mod 65536"
    using le assms by (simp only: unat_down c_int_avail_linear unat_up)
  then show ?thesis
    using le assms by (simp add: occ_linear)
next
  case False
  then have lt: "unat w < unat (m_read_pos s)"
    by (simp add: word_le_nat_alt)
  have "availableSpace s w = ucast ((ucast (m_read_pos s) :: c_int) - ucast w - 1)"
    using False unfolding availableSpace_def SEND_BUFFER_SIZE_def by simp
  then have "unat (availableSpace s w) = (unat (m_read_pos s) - unat w - 1) mod 65536"
    using lt assms by (simp only: unat_down c_int_avail_wrapped unat_up)
  then show ?thesis
    using lt assms by (simp add: occ_wrapped)
qed

lemma unat_advancePos: "unat (advancePos pos step) = (unat pos + unat step) mod 512"
  unfolding advancePos_def SEND_BUFFER_SIZE_def
  using u16_bound [of pos] u16_bound [of step]
  by (simp add: unat_down unat_mod unat_word_ariths unat_up)

lemma unat_SEND_BUFFER_SIZE: "unat SEND_BUFFER_SIZE = 512"
  by (simp add: SEND_BUFFER_SIZE_def)

lemma lt_SEND_BUFFER_SIZE: "x < SEND_BUFFER_SIZE \<longleftrightarrow> unat x < 512"
  by (simp add: SEND_BUFFER_SIZE_def word_less_nat_alt)

section \<open>Effects of the operations on the fields\<close>

lemma availableSpace_cong:
  "m_read_pos s' = m_read_pos s \<Longrightarrow> availableSpace s' w = availableSpace s w"
  by (simp add: availableSpace_def)

lemma startTransfer_frame:
  "m_send_buffer (startTransfer s) = m_send_buffer s"
  "m_write_pos (startTransfer s) = m_write_pos s"
  "m_read_pos (startTransfer s) = m_read_pos s"
  "m_missed_count (startTransfer s) = m_missed_count s"
  "m_enqueue_guard (startTransfer s) = m_enqueue_guard s"
  "m_uart (startTransfer s) = m_uart s"
  "hal_wire (startTransfer s) = hal_wire s"
  by (simp_all add: startTransfer_def HAL_UART_Transmit_DMA_def Let_def)

lemma process_frame:
  "m_send_buffer (process s in_isr) = m_send_buffer s"
  "m_write_pos (process s in_isr) = m_write_pos s"
  "m_read_pos (process s in_isr) = m_read_pos s"
  "m_missed_count (process s in_isr) = m_missed_count s"
  "m_enqueue_guard (process s in_isr) = m_enqueue_guard s"
  "m_uart (process s in_isr) = m_uart s"
  "hal_wire (process s in_isr) = hal_wire s"
  by (simp_all add: process_def startTransfer_frame)

lemma callback_frame:
  "m_send_buffer (transferCompletedCallback s huart) = m_send_buffer s"
  "m_write_pos (transferCompletedCallback s huart) = m_write_pos s"
  "m_missed_count (transferCompletedCallback s huart) = m_missed_count s"
  "m_enqueue_guard (transferCompletedCallback s huart) = m_enqueue_guard s"
  "m_uart (transferCompletedCallback s huart) = m_uart s"
  "hal_wire (transferCompletedCallback s huart) = hal_wire s"
  by (simp_all add: transferCompletedCallback_def startTransfer_frame)

lemma hal_complete_frame:
  "m_send_buffer (hal_complete s) = m_send_buffer s"
  "m_write_pos (hal_complete s) = m_write_pos s"
  "m_missed_count (hal_complete s) = m_missed_count s"
  "m_enqueue_guard (hal_complete s) = m_enqueue_guard s"
  "m_uart (hal_complete s) = m_uart s"
  by (simp_all add: hal_complete_def callback_frame split: option.splits)

text \<open>
  When the reservation leaves \<open>m_write_pos\<close> as it is, \<open>enqueue\<close> counts a miss and
  kicks the transfer.
\<close>

lemma enqueue_miss:
  assumes "\<not> len \<le> availableSpace s (m_write_pos s)
           \<or> advancePos (m_write_pos s) len = m_write_pos s"
  shows "enqueue s str len in_isr =
           process (s\<lparr> m_missed_count := m_missed_count s + 1 \<rparr>) in_isr"
  using assms
  by (auto simp add: enqueue_def Let_def ATOMIC_INCH_eq ATOMIC_DECH_eq availableSpace_def)

lemma enqueue_write_pos:
  "m_write_pos (enqueue s str len in_isr) =
     (if len \<le> availableSpace s (m_write_pos s) then advancePos (m_write_pos s) len
      else m_write_pos s)"
  by (simp add: enqueue_def Let_def process_frame availableSpace_def split: prod.splits)

lemma enqueue_read_pos: "m_read_pos (enqueue s str len in_isr) = m_read_pos s"
  by (simp add: enqueue_def Let_def process_frame split: prod.splits)


lemma enqueue_missed_count:
  "m_missed_count (enqueue s str len in_isr) =
     (if m_write_pos (enqueue s str len in_isr) = m_write_pos s
      then m_missed_count s + 1 else m_missed_count s)"
  by (simp add: enqueue_def Let_def process_frame ATOMIC_INCH_eq availableSpace_def
           split: prod.splits)

lemma process_idle:
  "m_is_sending s \<or> m_write_pos s = m_read_pos s \<Longrightarrow> process s in_isr = s"
  by (auto simp: process_def startTransfer_def)

lemma word_le_suc:
  fixes v :: uint16_t
  assumes "v \<noteq> 65535"
  shows "v \<le> v + 1"
proof -
  have "unat v \<noteq> 65535"
    using assms by (simp add: word_unat_eq_iff)
  then have "unat v < 65535"
    using u16_bound [of v] by simp
  then have "unat (v + 1) = unat v + 1"
    by (simp add: unat_word_ariths)
  then show ?thesis
    by (simp add: word_le_nat_alt)
qed

section \<open>A message that does not fit\<close>

lemma unat_suc_mod: "unat (v + 1) = (unat v + 1) mod 2 ^ 16" for v :: uint16_t
  by (simp add: unat_word_ariths)

lemma unat_suc_below:
  fixes v :: uint16_t
  assumes "v \<noteq> 65535"
  shows "unat (v + 1) = unat v + 1"
proof -
  have "unat v \<noteq> 65535"
    using assms by (simp add: word_unat_eq_iff)
  then have "unat v < 65535"
    using u16_bound [of v] by simp
  then show ?thesis
    by (simp add: unat_word_ariths)
qed

text \<open>
  Claim C2, as the code has it. In every state, a call \<open>enqueue(str, length)\<close> with
  \<open>length\<close> strictly greater than \<open>availableSpace(m_write_pos)\<close> leaves the storage,
  \<open>m_write_pos\<close> and \<open>m_read_pos\<close> as they were (so no part of the message is written)
  and adds 1 to \<open>m_missed_count\<close> modulo \<open>2^16\<close>: the counter goes up by exactly 1
  unless it is at 65535, from where it wraps to 0.
\<close>

theorem enqueue_no_space:
  assumes "availableSpace s (m_write_pos s) < len"
  shows "m_send_buffer (enqueue s str len in_isr) = m_send_buffer s
       \<and> m_write_pos (enqueue s str len in_isr) = m_write_pos s
       \<and> m_read_pos (enqueue s str len in_isr) = m_read_pos s
       \<and> m_missed_count (enqueue s str len in_isr) = m_missed_count s + 1
       \<and> unat (m_missed_count (enqueue s str len in_isr))
            = (unat (m_missed_count s) + 1) mod 2 ^ 16
       \<and> (m_missed_count s \<noteq> 65535 \<longrightarrow>
            unat (m_missed_count (enqueue s str len in_isr)) = unat (m_missed_count s) + 1)"
proof -
  from assms have "\<not> len \<le> availableSpace s (m_write_pos s)"
    by simp
  then have "enqueue s str len in_isr =
           process (s\<lparr> m_missed_count := m_missed_count s + 1 \<rparr>) in_isr"
    by (simp add: enqueue_miss)
  then have "m_send_buffer (enqueue s str len in_isr) = m_send_buffer s"
    and "m_write_pos (enqueue s str len in_isr) = m_write_pos s"
    and "m_read_pos (enqueue s str len in_isr) = m_read_pos s"
    and "m_missed_count (enqueue s str len in_isr) = m_missed_count s + 1"
    by (simp_all add: process_frame)
  moreover have "unat (m_missed_count s + 1) = (unat (m_missed_count s) + 1) mod 2 ^ 16"
    by (rule unat_suc_mod)
  moreover have "m_missed_count s \<noteq> 65535 \<longrightarrow>
      unat (m_missed_count s + 1) = unat (m_missed_count s) + 1"
    using unat_suc_below [of "m_missed_count s"] by blast
  ultimately show ?thesis
    by (simp only:)
qed

text \<open>
  The instance: 510 bytes are queued, one byte is free, and a message of two bytes is
  dropped.
\<close>

theorem enqueue_no_space_witness:
  "availableSpace ((init logger_global 1)\<lparr> m_write_pos := 510 \<rparr>)
       (m_write_pos ((init logger_global 1)\<lparr> m_write_pos := 510 \<rparr>)) < 2
   \<and> m_send_buffer (enqueue ((init logger_global 1)\<lparr> m_write_pos := 510 \<rparr>) [72, 105] 2 False)
       = m_send_buffer logger_global
   \<and> m_write_pos (enqueue ((init logger_global 1)\<lparr> m_write_pos := 510 \<rparr>) [72, 105] 2 False) = 510
   \<and> m_missed_count (enqueue ((init logger_global 1)\<lparr> m_write_pos := 510 \<rparr>) [72, 105] 2 False) = 1
   \<and> unat (m_missed_count
         (enqueue ((init logger_global 1)\<lparr> m_write_pos := 510 \<rparr>) [72, 105] 2 False)) = 1"
proof -
  let ?s = "(init logger_global 1)\<lparr> m_write_pos := 510 \<rparr>"
  have h: "availableSpace ?s (m_write_pos ?s) < 2"
    by (simp add: availableSpace_def init_def logger_global_def SEND_BUFFER_SIZE_def)
  note t = enqueue_no_space [OF h, of "[72, 105]" False]
  have b: "m_send_buffer (enqueue ?s [72, 105] 2 False) = m_send_buffer ?s"
    using t by (rule conjunct1)
  have w: "m_write_pos (enqueue ?s [72, 105] 2 False) = m_write_pos ?s"
    using t [THEN conjunct2] by (rule conjunct1)
  have m: "m_missed_count (enqueue ?s [72, 105] 2 False) = m_missed_count ?s + 1"
    using t [THEN conjunct2, THEN conjunct2, THEN conjunct2] by (rule conjunct1)
  have n: "m_missed_count ?s \<noteq> 65535"
    by (simp add: init_def logger_global_def)
  have u: "unat (m_missed_count (enqueue ?s [72, 105] 2 False)) = unat (m_missed_count ?s) + 1"
    using t [THEN conjunct2, THEN conjunct2, THEN conjunct2, THEN conjunct2, THEN conjunct2,
             rule_format, OF n] .
  show ?thesis
    using h b w m u by (simp add: init_def logger_global_def)
qed

text \<open>
  The claim as it is stated fails where the counter is at 65535: the dropped message
  takes it to 0, which is not one more.
\<close>

theorem enqueue_no_space_wraps:
  "availableSpace ((init logger_global 1)\<lparr> m_write_pos := 510, m_missed_count := 65535 \<rparr>)
       (m_write_pos ((init logger_global 1)\<lparr> m_write_pos := 510, m_missed_count := 65535 \<rparr>))
     < 2
   \<and> m_missed_count
         (enqueue ((init logger_global 1)\<lparr> m_write_pos := 510, m_missed_count := 65535 \<rparr>)
            [72, 105] 2 False) = 0
   \<and> unat (m_missed_count
         (enqueue ((init logger_global 1)\<lparr> m_write_pos := 510, m_missed_count := 65535 \<rparr>)
            [72, 105] 2 False))
       \<noteq> unat (m_missed_count
             ((init logger_global 1)\<lparr> m_write_pos := 510, m_missed_count := 65535 \<rparr>)) + 1"
proof -
  let ?s = "(init logger_global 1)\<lparr> m_write_pos := 510, m_missed_count := 65535 \<rparr>"
  have h: "availableSpace ?s (m_write_pos ?s) < 2"
    by (simp add: availableSpace_def init_def logger_global_def SEND_BUFFER_SIZE_def)
  then have "\<not> 2 \<le> availableSpace ?s (m_write_pos ?s)"
    by simp
  then have "enqueue ?s [72, 105] 2 False =
           process (?s\<lparr> m_missed_count := m_missed_count ?s + 1 \<rparr>) False"
    by (simp add: enqueue_miss)
  then have "m_missed_count (enqueue ?s [72, 105] 2 False) = m_missed_count ?s + 1"
    by (simp add: process_frame)
  then have "m_missed_count (enqueue ?s [72, 105] 2 False) = 0"
    by simp
  then show ?thesis
    using h by simp
qed

section \<open>The kick that has nothing to do\<close>

text \<open>
  Claim C7. Calling \<open>process()\<close> while \<open>m_is_sending\<close> is set, or while
  \<open>m_write_pos = m_read_pos\<close> (no data pending), changes no field of the logger and does
  not call the transmitter: the state after the call, which holds the list of calls of
  \<open>HAL_UART_Transmit_DMA\<close>, is the state before it.
\<close>

theorem process_noop:
  "m_is_sending s \<or> m_write_pos s = m_read_pos s \<Longrightarrow> process s in_isr = s"
  by (auto simp: process_def startTransfer_def)

theorem process_noop_witness:
  "(m_is_sending logger_global \<or> m_write_pos logger_global = m_read_pos logger_global)
   \<and> process logger_global False = logger_global
   \<and> process (logger_global\<lparr> m_write_pos := 7, m_is_sending := True \<rparr>) False
       = logger_global\<lparr> m_write_pos := 7, m_is_sending := True \<rparr>"
  using process_noop [of logger_global False]
    process_noop [of "logger_global\<lparr> m_write_pos := 7, m_is_sending := True \<rparr>" False]
  by (simp add: logger_global_def)

section \<open>The empty message\<close>

text \<open>
  Claim C10, as the code has it. \<open>enqueue(str, 0)\<close> writes nothing to the storage and
  leaves \<open>m_write_pos\<close> as it is, and it adds 1 to \<open>m_missed_count\<close> modulo \<open>2^16\<close>
  whatever the available space: the reservation of zero bytes stores the old value of
  \<open>m_write_pos\<close>, which is the case the code counts as a miss. The counter goes up by
  exactly 1 unless it is at 65535, from where it wraps to 0. The write cursor is an index
  of the buffer.
\<close>

theorem enqueue_zero_length:
  assumes "m_write_pos s < SEND_BUFFER_SIZE"
  shows "m_send_buffer (enqueue s str 0 in_isr) = m_send_buffer s
       \<and> m_write_pos (enqueue s str 0 in_isr) = m_write_pos s
       \<and> m_missed_count (enqueue s str 0 in_isr) = m_missed_count s + 1
       \<and> unat (m_missed_count (enqueue s str 0 in_isr))
            = (unat (m_missed_count s) + 1) mod 2 ^ 16
       \<and> (m_missed_count s \<noteq> 65535 \<longrightarrow>
            unat (m_missed_count (enqueue s str 0 in_isr)) = unat (m_missed_count s) + 1)"
proof -
  have "unat (advancePos (m_write_pos s) 0) = unat (m_write_pos s)"
    using assms by (simp add: unat_advancePos lt_SEND_BUFFER_SIZE)
  then have "advancePos (m_write_pos s) 0 = m_write_pos s"
    by (simp add: word_unat_eq_iff)
  then have "enqueue s str 0 in_isr =
           process (s\<lparr> m_missed_count := m_missed_count s + 1 \<rparr>) in_isr"
    by (simp add: enqueue_miss)
  then have "m_send_buffer (enqueue s str 0 in_isr) = m_send_buffer s"
    and "m_write_pos (enqueue s str 0 in_isr) = m_write_pos s"
    and "m_missed_count (enqueue s str 0 in_isr) = m_missed_count s + 1"
    by (simp_all add: process_frame)
  moreover have "unat (m_missed_count s + 1) = (unat (m_missed_count s) + 1) mod 2 ^ 16"
    by (rule unat_suc_mod)
  moreover have "m_missed_count s \<noteq> 65535 \<longrightarrow>
      unat (m_missed_count s + 1) = unat (m_missed_count s) + 1"
    using unat_suc_below [of "m_missed_count s"] by blast
  ultimately show ?thesis
    by (simp only:)
qed

text \<open>The instance: the empty buffer, with 511 bytes available.\<close>

theorem enqueue_zero_length_witness:
  "m_write_pos logger_global < SEND_BUFFER_SIZE
   \<and> availableSpace logger_global (m_write_pos logger_global) = 511
   \<and> m_send_buffer (enqueue logger_global [] 0 False) = m_send_buffer logger_global
   \<and> m_write_pos (enqueue logger_global [] 0 False) = m_write_pos logger_global
   \<and> m_missed_count (enqueue logger_global [] 0 False) = 1
   \<and> unat (m_missed_count (enqueue logger_global [] 0 False)) = 1"
proof -
  have h: "m_write_pos logger_global < SEND_BUFFER_SIZE"
    by (simp add: logger_global_def SEND_BUFFER_SIZE_def)
  have a: "availableSpace logger_global (m_write_pos logger_global) = 511"
    by (simp add: availableSpace_def logger_global_def SEND_BUFFER_SIZE_def)
  note t = enqueue_zero_length [OF h, of "[]" False]
  have b: "m_send_buffer (enqueue logger_global [] 0 False) = m_send_buffer logger_global"
    using t by (rule conjunct1)
  have w: "m_write_pos (enqueue logger_global [] 0 False) = m_write_pos logger_global"
    using t [THEN conjunct2] by (rule conjunct1)
  have m: "m_missed_count (enqueue logger_global [] 0 False) = m_missed_count logger_global + 1"
    using t [THEN conjunct2, THEN conjunct2] by (rule conjunct1)
  have n: "m_missed_count logger_global \<noteq> 65535"
    by (simp add: logger_global_def)
  have u: "unat (m_missed_count (enqueue logger_global [] 0 False))
             = unat (m_missed_count logger_global) + 1"
    using t [THEN conjunct2, THEN conjunct2, THEN conjunct2, THEN conjunct2,
             rule_format, OF n] .
  show ?thesis
    using h a b w m u by (simp add: logger_global_def)
qed

text \<open>
  The state with the counter at its last value is reached from the initial state by
  65535 empty messages enqueued from an interrupt handler.
\<close>

lemma empty_messages_count:
  "((\<lambda>s. enqueue s [] 0 True) ^^ n) (init logger_global huart)
     = (init logger_global huart)\<lparr> m_missed_count := of_nat n \<rparr>"
proof (induction n)
  case 0
  show ?case
    by (simp add: init_def logger_global_def)
next
  case (Suc n)
  let ?s = "(init logger_global huart)\<lparr> m_missed_count := of_nat n \<rparr>"
  have "advancePos (m_write_pos ?s) 0 = m_write_pos ?s"
    by (simp add: word_unat_eq_iff unat_advancePos init_def logger_global_def)
  then have "enqueue ?s [] 0 True = process (?s\<lparr> m_missed_count := m_missed_count ?s + 1 \<rparr>) True"
    by (simp add: enqueue_miss)
  then show ?case
    by (simp add: Suc.IH process_def add.commute)
qed

text \<open>
  The claim as it is stated fails in that state: one more empty message takes the
  counter from 65535 to 0.
\<close>

theorem enqueue_zero_length_wraps:
  "m_write_pos ((init logger_global 1)\<lparr> m_missed_count := 65535 \<rparr>) < SEND_BUFFER_SIZE
   \<and> m_missed_count (enqueue ((init logger_global 1)\<lparr> m_missed_count := 65535 \<rparr>) [] 0 True)
       = 0
   \<and> unat (m_missed_count
         (enqueue ((init logger_global 1)\<lparr> m_missed_count := 65535 \<rparr>) [] 0 True))
       \<noteq> unat (m_missed_count ((init logger_global 1)\<lparr> m_missed_count := 65535 \<rparr>)) + 1"
proof -
  let ?s = "(init logger_global 1)\<lparr> m_missed_count := 65535 \<rparr>"
  have h: "m_write_pos ?s < SEND_BUFFER_SIZE"
    by (simp add: init_def logger_global_def SEND_BUFFER_SIZE_def)
  have "advancePos (m_write_pos ?s) 0 = m_write_pos ?s"
    by (simp add: word_unat_eq_iff unat_advancePos init_def logger_global_def)
  then have "enqueue ?s [] 0 True = process (?s\<lparr> m_missed_count := m_missed_count ?s + 1 \<rparr>) True"
    by (simp add: enqueue_miss)
  then have "m_missed_count (enqueue ?s [] 0 True) = m_missed_count ?s + 1"
    by (simp add: process_frame)
  then have "m_missed_count (enqueue ?s [] 0 True) = 0"
    by simp
  then show ?thesis
    using h by simp
qed

section \<open>The counter of missed messages\<close>

text \<open>
  Claim C8, as the code has it. No operation of the logger lowers \<open>m_missed_count\<close>
  except by wrapping: every step leaves the counter as it is or adds 1 to it modulo
  \<open>2^16\<close>, so the value after the step is at least the value before it whenever the
  counter is not at 65535.
\<close>

theorem missed_count_monotone_until_wrap:
  assumes "logger_step s s'"
  shows "(m_missed_count s' = m_missed_count s \<or> m_missed_count s' = m_missed_count s + 1)
       \<and> (m_missed_count s \<noteq> 65535 \<longrightarrow> m_missed_count s \<le> m_missed_count s')"
  using assms
proof cases
  case (step_enqueue len str in_isr)
  then show ?thesis
    by (auto simp: enqueue_missed_count word_le_suc)
next
  case (step_process in_isr)
  then show ?thesis
    by (simp add: process_frame)
next
  case step_startTransfer
  then show ?thesis
    by (simp add: startTransfer_frame)
next
  case (step_callback huart)
  then show ?thesis
    by (simp add: callback_frame)
next
  case step_complete
  then show ?thesis
    by (simp add: hal_complete_frame)
qed

theorem missed_count_monotone_until_wrap_witness:
  "logger_step logger_global (enqueue logger_global [] 0 False)
   \<and> m_missed_count (enqueue logger_global [] 0 False) = m_missed_count logger_global + 1
   \<and> m_missed_count logger_global \<le> m_missed_count (enqueue logger_global [] 0 False)"
proof -
  have h: "logger_step logger_global (enqueue logger_global [] 0 False)"
    by (rule step_enqueue) simp
  have w: "m_write_pos (enqueue logger_global [] 0 False) = m_write_pos logger_global"
    by (simp add: enqueue_write_pos advancePos_def logger_global_def SEND_BUFFER_SIZE_def)
  show ?thesis
    using h missed_count_monotone_until_wrap [OF h] w
    by (simp add: enqueue_missed_count logger_global_def)
qed

text \<open>
  The claim as it is stated fails where the counter is at 65535: the next message that
  does not fit takes it to 0.
\<close>

theorem missed_count_wraps:
  "\<not> m_missed_count ((init logger_global 1)\<lparr> m_write_pos := 510, m_missed_count := 65535 \<rparr>)
       \<le> m_missed_count
            (enqueue ((init logger_global 1)\<lparr> m_write_pos := 510, m_missed_count := 65535 \<rparr>)
               [72, 105] 2 False)"
proof -
  have "availableSpace ((init logger_global 1)\<lparr> m_write_pos := 510, m_missed_count := 65535 \<rparr>) 510
          = 1"
    by (simp add: availableSpace_def init_def logger_global_def SEND_BUFFER_SIZE_def)
  then show ?thesis
    by (simp add: enqueue_missed_count enqueue_write_pos init_def logger_global_def
          word_le_nat_alt)
qed

section \<open>Occupancy and available space\<close>

lemma mod512_once: "512 \<le> x \<Longrightarrow> x < 1024 \<Longrightarrow> x mod 512 = x - 512" for x :: nat
  by (simp add: le_mod_geq)

lemma ring_advance:
  fixes r w n :: nat
  assumes r: "r < 512" and w: "w < 512" and n: "n \<le> 511 - (w + 512 - r) mod 512"
  shows "((w + n) mod 512 + 512 - r) mod 512 = (w + 512 - r) mod 512 + n"
proof (cases "r \<le> w")
  case True
  then have occ: "(w + 512 - r) mod 512 = w - r"
    using w by (simp add: occ_linear)
  show ?thesis
  proof (cases "w + n < 512")
    case lt: True
    then have "(w + n) mod 512 = w + n" by simp
    moreover have "(w + n + 512 - r) mod 512 = w + n - r"
      using True lt by (intro occ_linear) simp_all
    ultimately show ?thesis using occ True by simp
  next
    case ge: False
    have "w + n < 1024" using n w by simp
    then have m: "(w + n) mod 512 = w + n - 512"
      using ge by (simp add: mod512_once)
    have "w + n - 512 < r" using n occ True ge by simp
    then have "(w + n - 512 + 512 - r) mod 512 = w + n - 512 + 512 - r"
      using r by (intro occ_wrapped) simp_all
    then show ?thesis using m occ True ge by simp
  qed
next
  case False
  then have occ: "(w + 512 - r) mod 512 = w + 512 - r"
    using r by (simp add: occ_wrapped)
  have lt: "w + n < r" using n occ False r by simp
  then have "(w + n) mod 512 = w + n" using r by simp
  moreover have "(w + n + 512 - r) mod 512 = w + n + 512 - r"
    using lt r by (intro occ_wrapped) simp_all
  ultimately show ?thesis using occ False r by simp
qed

lemma ring_zero:
  fixes r w :: nat
  assumes "r < 512" "w < 512"
  shows "(w + 512 - r) mod 512 = 0 \<longleftrightarrow> w = r"
proof (cases "r \<le> w")
  case True
  then show ?thesis using assms by (simp add: occ_linear)
next
  case False
  then show ?thesis using assms by (simp add: occ_wrapped)
qed

lemma ring_bound: "(w + 512 - r) mod 512 \<le> 511" for r w :: nat
  using mod_less_divisor [of 512 "w + 512 - r"] by simp

lemma occupied_nat: "occupied r w = (unat w + 512 - unat r) mod 512"
  by (simp add: occupied_def SEND_BUFFER_SIZE_def)

lemma availableSpace_occupied:
  assumes "m_read_pos s < SEND_BUFFER_SIZE" "w < SEND_BUFFER_SIZE"
  shows "unat (availableSpace s w) = 511 - occupied (m_read_pos s) w"
  using assms by (simp add: unat_availableSpace occupied_nat lt_SEND_BUFFER_SIZE)

lemma occupied_advance:
  assumes "m_read_pos s < SEND_BUFFER_SIZE" "w < SEND_BUFFER_SIZE"
    and "len \<le> availableSpace s w"
  shows "occupied (m_read_pos s) (advancePos w len) = occupied (m_read_pos s) w + unat len"
proof -
  have "unat len \<le> 511 - (unat w + 512 - unat (m_read_pos s)) mod 512"
    using assms by (simp add: word_le_nat_alt unat_availableSpace lt_SEND_BUFFER_SIZE)
  then show ?thesis
    using assms by (simp add: occupied_nat unat_advancePos ring_advance lt_SEND_BUFFER_SIZE)
qed

lemma occupied_zero:
  assumes "r < SEND_BUFFER_SIZE" "w < SEND_BUFFER_SIZE"
  shows "occupied r w = 0 \<longleftrightarrow> w = r"
  using assms by (simp add: occupied_nat ring_zero lt_SEND_BUFFER_SIZE word_unat_eq_iff)

lemma advancePos_lt: "advancePos w len < SEND_BUFFER_SIZE"
  by (simp add: lt_SEND_BUFFER_SIZE unat_advancePos)

text \<open>
  Claim C5. For cursors that are indices of the buffer, \<open>availableSpace(write_pos)\<close> is
  the capacity minus the number of occupied bytes minus one, and it depends on the state
  through \<open>m_read_pos\<close> only. So it is at most \<open>SEND_BUFFER_SIZE - 1\<close>; a reservation of
  at most that many bytes adds its length to the occupancy without wrapping it around,
  hence cannot take \<open>m_write_pos\<close> onto \<open>m_read_pos\<close> when the buffer is not empty; and
  the cursors are equal exactly when no byte is occupied.
\<close>

theorem availableSpace_one_slot_free:
  assumes "m_read_pos s < SEND_BUFFER_SIZE" "write_pos < SEND_BUFFER_SIZE"
  shows "unat (availableSpace s write_pos)
           = unat SEND_BUFFER_SIZE - occupied (m_read_pos s) write_pos - 1
       \<and> (\<forall>s'. m_read_pos s' = m_read_pos s
              \<longrightarrow> availableSpace s' write_pos = availableSpace s write_pos)
       \<and> availableSpace s write_pos \<le> SEND_BUFFER_SIZE - 1
       \<and> (\<forall>len. len \<le> availableSpace s write_pos \<longrightarrow>
              occupied (m_read_pos s) (advancePos write_pos len)
                = occupied (m_read_pos s) write_pos + unat len)
       \<and> (\<forall>len. len \<le> availableSpace s write_pos \<and> write_pos \<noteq> m_read_pos s \<longrightarrow>
              advancePos write_pos len \<noteq> m_read_pos s)
       \<and> (occupied (m_read_pos s) write_pos = 0 \<longleftrightarrow> write_pos = m_read_pos s)"
proof (intro conjI allI impI)
  show "unat (availableSpace s write_pos)
           = unat SEND_BUFFER_SIZE - occupied (m_read_pos s) write_pos - 1"
    using assms by (simp add: availableSpace_occupied unat_SEND_BUFFER_SIZE)
next
  fix s' :: logger
  assume "m_read_pos s' = m_read_pos s"
  then show "availableSpace s' write_pos = availableSpace s write_pos"
    by (rule availableSpace_cong)
next
  have "unat (availableSpace s write_pos) \<le> 511"
    using assms by (simp add: availableSpace_occupied)
  then show "availableSpace s write_pos \<le> SEND_BUFFER_SIZE - 1"
    by (simp add: word_le_nat_alt SEND_BUFFER_SIZE_def)
next
  fix len
  assume "len \<le> availableSpace s write_pos"
  then show "occupied (m_read_pos s) (advancePos write_pos len)
                = occupied (m_read_pos s) write_pos + unat len"
    using assms by (simp add: occupied_advance)
next
  fix len
  assume a: "len \<le> availableSpace s write_pos \<and> write_pos \<noteq> m_read_pos s"
  then have "occupied (m_read_pos s) write_pos \<noteq> 0"
    using assms by (simp add: occupied_zero)
  then have "occupied (m_read_pos s) (advancePos write_pos len) \<noteq> 0"
    using a assms by (simp add: occupied_advance)
  then show "advancePos write_pos len \<noteq> m_read_pos s"
    using assms by (simp add: occupied_zero advancePos_lt)
next
  show "occupied (m_read_pos s) write_pos = 0 \<longleftrightarrow> write_pos = m_read_pos s"
    using assms by (simp add: occupied_zero)
qed

text \<open>The instance: read cursor 12, write cursor 3, so 503 bytes occupied and 8 free.\<close>

theorem availableSpace_one_slot_free_witness:
  "m_read_pos (logger_global\<lparr> m_read_pos := 12 \<rparr>) < SEND_BUFFER_SIZE
   \<and> (3 :: uint16_t) < SEND_BUFFER_SIZE
   \<and> occupied 12 3 = 503
   \<and> unat (availableSpace (logger_global\<lparr> m_read_pos := 12 \<rparr>) 3) = 8
   \<and> availableSpace (logger_global\<lparr> m_read_pos := 12 \<rparr>) 3 \<le> SEND_BUFFER_SIZE - 1
   \<and> occupied 12 (advancePos 3 8) = 511
   \<and> advancePos 3 8 \<noteq> m_read_pos (logger_global\<lparr> m_read_pos := 12 \<rparr>)"
proof -
  let ?s = "logger_global\<lparr> m_read_pos := 12 \<rparr>"
  have h1: "m_read_pos ?s < SEND_BUFFER_SIZE"
    by (simp add: SEND_BUFFER_SIZE_def)
  have h2: "(3 :: uint16_t) < SEND_BUFFER_SIZE"
    by (simp add: SEND_BUFFER_SIZE_def)
  have r: "m_read_pos ?s = 12"
    by simp
  have o: "occupied 12 3 = 503"
    by (simp add: occupied_def SEND_BUFFER_SIZE_def)
  note t = availableSpace_one_slot_free [OF h1 h2, unfolded r]
  note t1 = t [THEN conjunct1]
  note t3 = t [THEN conjunct2, THEN conjunct2, THEN conjunct1]
  note t4 = t [THEN conjunct2, THEN conjunct2, THEN conjunct2, THEN conjunct1, rule_format]
  note t5 = t [THEN conjunct2, THEN conjunct2, THEN conjunct2, THEN conjunct2, THEN conjunct1,
               rule_format]
  have a: "unat (availableSpace ?s 3) = 8"
    using t1 o by (simp add: unat_SEND_BUFFER_SIZE)
  then have a': "(8 :: uint16_t) \<le> availableSpace ?s 3"
    by (simp add: word_le_nat_alt)
  have c: "occupied 12 (advancePos 3 8) = 511"
    using t4 [OF a'] o by simp
  have d: "advancePos 3 8 \<noteq> (12 :: uint16_t)"
    using a' by (intro t5) simp
  show ?thesis
    using h1 h2 o a t3 c d by simp
qed

section \<open>Starting a transfer\<close>

lemma size_linear:
  fixes r w :: uint16_t
  assumes "r < w"
  shows "unat (ucast ((ucast w :: c_int) - ucast r) :: uint16_t) = unat w - unat r"
proof -
  have le: "unat (ucast r :: c_int) \<le> unat (ucast w :: c_int)"
    using assms by (simp add: unat_up word_less_nat_alt)
  have "unat w - unat r < 65536"
    using u16_bound [of w] by simp
  then show ?thesis
    by (simp only: unat_down c_int_sub [OF le] unat_up) simp
qed

lemma size_to_end:
  fixes r :: uint16_t
  assumes "unat r \<le> 512"
  shows "unat (ucast ((ucast SEND_BUFFER_SIZE :: c_int) - ucast r) :: uint16_t) = 512 - unat r"
proof -
  have s: "unat (ucast SEND_BUFFER_SIZE :: c_int) = 512"
    by (simp only: unat_up unat_SEND_BUFFER_SIZE)
  have le: "unat (ucast r :: c_int) \<le> unat (ucast SEND_BUFFER_SIZE :: c_int)"
    using assms by (simp add: unat_up unat_SEND_BUFFER_SIZE)
  show ?thesis
    by (simp only: unat_down c_int_sub [OF le] unat_up unat_SEND_BUFFER_SIZE) simp
qed

lemma startTransfer_linear:
  assumes "m_read_pos s < m_write_pos s" "m_enqueue_guard s = 0"
  shows "startTransfer s =
           s\<lparr> m_is_sending := True, m_new_read_pos := m_write_pos s,
              hal_calls := hal_calls s @ [(unat (m_read_pos s),
                                           unat (m_write_pos s) - unat (m_read_pos s))],
              hal_inflight := (case hal_inflight s of
                                 None \<Rightarrow> Some (unat (m_read_pos s),
                                                unat (m_write_pos s) - unat (m_read_pos s))
                               | Some q \<Rightarrow> Some q) \<rparr>"
  using assms
  by (auto simp add: startTransfer_def HAL_UART_Transmit_DMA_def Let_def size_linear
        split: option.splits)

lemma startTransfer_wrapped:
  assumes "m_write_pos s < m_read_pos s" "m_enqueue_guard s = 0"
    and "m_read_pos s < SEND_BUFFER_SIZE"
  shows "startTransfer s =
           s\<lparr> m_is_sending := True, m_new_read_pos := 0,
              hal_calls := hal_calls s @ [(unat (m_read_pos s), 512 - unat (m_read_pos s))],
              hal_inflight := (case hal_inflight s of
                                 None \<Rightarrow> Some (unat (m_read_pos s), 512 - unat (m_read_pos s))
                               | Some q \<Rightarrow> Some q) \<rparr>"
proof -
  have "unat (m_read_pos s) \<le> 512"
    using assms(3) by (simp add: lt_SEND_BUFFER_SIZE)
  then have sz: "unat (ucast ((ucast SEND_BUFFER_SIZE :: c_int) - ucast (m_read_pos s)) :: uint16_t)
           = 512 - unat (m_read_pos s)"
    by (rule size_to_end)
  have "\<not> m_read_pos s < m_write_pos s" "m_write_pos s \<noteq> m_read_pos s"
    using assms(1) by auto
  then show ?thesis
    using assms(2) sz
    by (simp add: startTransfer_def HAL_UART_Transmit_DMA_def Let_def split: option.splits)
qed

lemma startTransfer_nothing:
  assumes "m_write_pos s = m_read_pos s \<or> m_enqueue_guard s \<noteq> 0"
  shows "startTransfer s = s\<lparr> m_is_sending := False \<rparr>"
  using assms by (auto simp add: startTransfer_def)

text \<open>
  Claim C4. When \<open>startTransfer\<close> runs with \<open>m_write_pos \<noteq> m_read_pos\<close> and
  \<open>m_enqueue_guard = 0\<close>, the cursors being indices of the buffer: if the range from
  \<open>m_read_pos\<close> to \<open>m_write_pos\<close> does not wrap, it records \<open>m_new_read_pos =
  m_write_pos\<close> and asks for the \<open>m_write_pos - m_read_pos\<close> bytes at \<open>m_read_pos\<close>; if
  the range wraps, it records \<open>m_new_read_pos = 0\<close> and asks for the \<open>SEND_BUFFER_SIZE -
  m_read_pos\<close> bytes at \<open>m_read_pos\<close>. Either way it makes one request, of a nonempty
  range that ends inside the storage.
\<close>

theorem startTransfer_request:
  assumes "m_read_pos s < SEND_BUFFER_SIZE" "m_write_pos s < SEND_BUFFER_SIZE"
    and "m_write_pos s \<noteq> m_read_pos s" "m_enqueue_guard s = 0"
  shows "(m_read_pos s < m_write_pos s \<longrightarrow>
            m_new_read_pos (startTransfer s) = m_write_pos s
          \<and> hal_calls (startTransfer s)
              = hal_calls s @ [(unat (m_read_pos s),
                                unat (m_write_pos s) - unat (m_read_pos s))])
       \<and> (m_write_pos s < m_read_pos s \<longrightarrow>
            m_new_read_pos (startTransfer s) = 0
          \<and> hal_calls (startTransfer s)
              = hal_calls s @ [(unat (m_read_pos s),
                                unat SEND_BUFFER_SIZE - unat (m_read_pos s))])
       \<and> (\<exists>offset n. hal_calls (startTransfer s) = hal_calls s @ [(offset, n)]
              \<and> offset = unat (m_read_pos s) \<and> 0 < n
              \<and> offset + n \<le> unat SEND_BUFFER_SIZE)
       \<and> m_is_sending (startTransfer s)"
proof (cases "m_read_pos s < m_write_pos s")
  case True
  then have "unat (m_read_pos s) < unat (m_write_pos s)" "\<not> m_write_pos s < m_read_pos s"
    by (simp_all add: word_less_nat_alt)
  then show ?thesis
    using True assms
    by (simp add: startTransfer_linear lt_SEND_BUFFER_SIZE unat_SEND_BUFFER_SIZE)
next
  case False
  then have lt: "m_write_pos s < m_read_pos s"
    using assms(3) by auto
  then show ?thesis
    using False assms
    by (simp add: startTransfer_wrapped lt_SEND_BUFFER_SIZE unat_SEND_BUFFER_SIZE)
qed

text \<open>
  The instances: read cursor 12 and write cursor 3 give the request of the 500 bytes up
  to the end of the storage; read cursor 0 and write cursor 7 give the 7 bytes queued.
\<close>

theorem startTransfer_request_witness:
  "m_read_pos ((init logger_global 1)\<lparr> m_read_pos := 12, m_write_pos := 3 \<rparr>) < SEND_BUFFER_SIZE
   \<and> m_write_pos ((init logger_global 1)\<lparr> m_read_pos := 12, m_write_pos := 3 \<rparr>) < SEND_BUFFER_SIZE
   \<and> m_write_pos ((init logger_global 1)\<lparr> m_read_pos := 12, m_write_pos := 3 \<rparr>)
        \<noteq> m_read_pos ((init logger_global 1)\<lparr> m_read_pos := 12, m_write_pos := 3 \<rparr>)
   \<and> m_enqueue_guard ((init logger_global 1)\<lparr> m_read_pos := 12, m_write_pos := 3 \<rparr>) = 0
   \<and> m_new_read_pos (startTransfer ((init logger_global 1)\<lparr> m_read_pos := 12, m_write_pos := 3 \<rparr>)) = 0
   \<and> hal_calls (startTransfer ((init logger_global 1)\<lparr> m_read_pos := 12, m_write_pos := 3 \<rparr>))
        = [(12, 500)]
   \<and> m_new_read_pos (startTransfer ((init logger_global 1)\<lparr> m_write_pos := 7 \<rparr>)) = 7
   \<and> hal_calls (startTransfer ((init logger_global 1)\<lparr> m_write_pos := 7 \<rparr>)) = [(0, 7)]"
proof -
  let ?s = "(init logger_global 1)\<lparr> m_read_pos := 12, m_write_pos := 3 \<rparr>"
  let ?t = "(init logger_global 1)\<lparr> m_write_pos := 7 \<rparr>"
  have h: "m_read_pos ?s < SEND_BUFFER_SIZE" "m_write_pos ?s < SEND_BUFFER_SIZE"
    "m_write_pos ?s \<noteq> m_read_pos ?s" "m_enqueue_guard ?s = 0"
    by (simp_all add: SEND_BUFFER_SIZE_def init_def logger_global_def)
  have k: "m_read_pos ?t < SEND_BUFFER_SIZE" "m_write_pos ?t < SEND_BUFFER_SIZE"
    "m_write_pos ?t \<noteq> m_read_pos ?t" "m_enqueue_guard ?t = 0"
    by (simp_all add: SEND_BUFFER_SIZE_def init_def logger_global_def)
  have wrapped: "m_write_pos ?s < m_read_pos ?s"
    by (simp add: init_def)
  have linear: "m_read_pos ?t < m_write_pos ?t"
    by (simp add: init_def logger_global_def)
  note a = startTransfer_request [OF h, THEN conjunct2, THEN conjunct1, rule_format, OF wrapped]
  note b = startTransfer_request [OF k, THEN conjunct1, rule_format, OF linear]
  show ?thesis
    using h a b by (simp add: init_def logger_global_def SEND_BUFFER_SIZE_def)
qed

section \<open>The copy loops\<close>

lemma map_nth_upt: "n \<le> length xs \<Longrightarrow> map ((!) xs) [i ..< n] = drop i (take n xs)"
  by (rule nth_equalityI) auto

lemma copy_loop_spec:
  "unat i \<le> unat bound \<Longrightarrow> unat write_pos + (unat bound - unat i) \<le> length buf \<Longrightarrow>
   length buf \<le> 65535 \<Longrightarrow>
   copy_loop buf str i bound write_pos =
     (take (unat write_pos) buf @ map ((!) str) [unat i ..< unat bound]
        @ drop (unat write_pos + (unat bound - unat i)) buf,
      bound, write_pos + (bound - i))"
proof (induction buf str i bound write_pos rule: copy_loop.induct)
  case (1 buf str i bound write_pos)
  show ?case
  proof (cases "i < bound")
    case True
    then have lt: "unat i < unat bound"
      by (simp add: word_less_nat_alt)
    have si: "unat (i + 1) = Suc (unat i)"
      using True by unat_arith
    have wlt: "unat write_pos < length buf"
      using lt "1.prems" by simp
    then have sw: "unat (write_pos + 1) = Suc (unat write_pos)"
      using "1.prems"(3) by (simp add: unat_word_ariths)
    let ?b = "buf[unat write_pos := str ! unat i]"
    have ih: "copy_loop ?b str (i + 1) bound (write_pos + 1) =
       (take (unat (write_pos + 1)) ?b @ map ((!) str) [unat (i + 1) ..< unat bound]
          @ drop (unat (write_pos + 1) + (unat bound - unat (i + 1))) ?b,
        bound, write_pos + 1 + (bound - (i + 1)))"
      using True lt "1.prems" by (intro "1.IH") (simp_all add: si sw)
    have t: "take (Suc (unat write_pos)) ?b = take (unat write_pos) buf @ [str ! unat i]"
      using wlt by (simp add: take_Suc_conv_app_nth)
    have d: "drop (Suc (unat write_pos) + (unat bound - Suc (unat i))) ?b
             = drop (unat write_pos + (unat bound - unat i)) buf"
    proof -
      have "Suc (unat write_pos) + (unat bound - Suc (unat i))
            = unat write_pos + (unat bound - unat i)"
        using lt by arith
      moreover have "drop (Suc (unat write_pos) + (unat bound - Suc (unat i))) ?b
            = drop (Suc (unat write_pos) + (unat bound - Suc (unat i))) buf"
        by (rule drop_update_cancel) arith
      ultimately show ?thesis
        by (simp only:)
    qed
    have u: "[unat i ..< unat bound] = unat i # [Suc (unat i) ..< unat bound]"
      using lt by (simp add: upt_conv_Cons)
    show ?thesis
      using True by (subst copy_loop.simps) (simp only: ih si sw t d u if_True, simp)
  next
    case False
    then have "unat i = unat bound"
      using "1.prems"(1) by (simp add: word_less_nat_alt)
    then have "i = bound"
      by (simp add: word_unat_eq_iff)
    then show ?thesis
      by (subst copy_loop.simps) simp
  qed
qed

text \<open>One loop, from \<open>str[i]\<close> on, is a linear copy.\<close>

lemma copy_loop_linear:
  assumes "unat i \<le> unat bound" "unat bound \<le> length str"
    and "unat write_pos + (unat bound - unat i) \<le> length buf" "length buf \<le> 65535"
  shows "copy_loop buf str i bound write_pos =
           (linear_copy buf (unat write_pos) (drop (unat i) (take (unat bound) str)),
            bound, write_pos + (bound - i))"
  using assms by (simp add: copy_loop_spec linear_copy_def map_nth_upt)

lemma length_linear_copy:
  "pos + length bytes \<le> length buf \<Longrightarrow> length (linear_copy buf pos bytes) = length buf"
  by (simp add: linear_copy_def)

lemma linear_copy_empty: "linear_copy buf 0 [] = buf"
  by (simp add: linear_copy_def)

lemma logger_wf_nat:
  "logger_wf s \<longleftrightarrow>
     length (m_send_buffer s) = 512 \<and> unat (m_read_pos s) < 512 \<and> unat (m_write_pos s) < 512"
  by (simp add: logger_wf_def lt_SEND_BUFFER_SIZE unat_SEND_BUFFER_SIZE)

lemma fits_bound:
  assumes "logger_wf s" "len \<le> availableSpace s (m_write_pos s)"
  shows "unat len \<le> 511 - (unat (m_write_pos s) + 512 - unat (m_read_pos s)) mod 512"
  using assms by (simp add: logger_wf_nat word_le_nat_alt unat_availableSpace)

lemma enqueue_success:
  assumes wf: "logger_wf s" and fits: "len \<le> availableSpace s (m_write_pos s)"
    and nz: "len \<noteq> 0" and str: "unat len \<le> length str"
  shows "enqueue s str len in_isr =
           process (s\<lparr> m_write_pos := advancePos (m_write_pos s) len,
                       m_send_buffer := circular_copy (m_send_buffer s) (unat (m_write_pos s))
                                          (take (unat len) str) \<rparr>) in_isr"
proof -
  let ?W = "unat (m_write_pos s)" and ?L = "unat len" and ?buf = "m_send_buffer s"
  let ?new = "advancePos (m_write_pos s) len"
  have W: "?W < 512" and len_buf: "length ?buf = 512"
    using wf by (simp_all add: logger_wf_nat)
  have L: "?L \<le> 511"
    using fits_bound [OF wf fits] by simp
  have Lpos: "0 < ?L"
    using nz by (simp add: unat_gt_0)
  have new: "unat ?new = (?W + ?L) mod 512"
    by (rule unat_advancePos)
  have fits': "len \<le> availableSpace (s\<lparr>m_enqueue_guard := m_enqueue_guard s + 1\<rparr>) (m_write_pos s)"
    using fits by (simp add: availableSpace_def split: if_splits)
  have take_len: "length (take ?L str) = ?L"
    using str by simp
  show ?thesis
  proof (cases "?W + ?L < 512")
    case True
    then have "unat ?new = ?W + ?L"
      using new by simp
    then have lt: "m_write_pos s < ?new" and ne: "m_write_pos s \<noteq> ?new"
      using Lpos by (auto simp add: word_less_nat_alt)
    have loop: "copy_loop ?buf str 0 len (m_write_pos s) =
            (linear_copy ?buf ?W (drop (unat (0 :: uint16_t)) (take ?L str)), len,
             m_write_pos s + (len - 0))"
      using True str len_buf by (intro copy_loop_linear) simp_all
    have cc: "circular_copy ?buf ?W (take ?L str) = linear_copy ?buf ?W (take ?L str)"
      using True len_buf take_len by (simp add: circular_copy_def)
    show ?thesis
      using fits' lt ne loop cc
      by (simp add: enqueue_def Let_def ATOMIC_INCH_eq ATOMIC_DECH_eq)
  next
    case False
    then have ge: "512 \<le> ?W + ?L"
      by simp
    have "?W + ?L < 1024"
      using W L by simp
    then have newv: "unat ?new = ?W + ?L - 512"
      using new ge by (simp add: mod512_once)
    then have nlt: "\<not> m_write_pos s < ?new" and ne: "m_write_pos s \<noteq> ?new"
      using L W ge by (auto simp add: word_less_nat_alt)
    let ?till = "ucast ((ucast SEND_BUFFER_SIZE :: c_int) - ucast (m_write_pos s)) :: uint16_t"
    have till: "unat ?till = 512 - ?W"
      using W by (intro size_to_end) simp
    have till_le: "512 - ?W \<le> ?L"
      using ge by simp
    let ?buf1 = "linear_copy ?buf ?W (take (512 - ?W) str)"
    have loop1: "copy_loop ?buf str 0 ?till (m_write_pos s) =
            (linear_copy ?buf ?W (drop (unat (0 :: uint16_t)) (take (unat ?till) str)), ?till,
             m_write_pos s + (?till - 0))"
      using W str len_buf till till_le by (intro copy_loop_linear) simp_all
    have len1: "length ?buf1 = 512"
      using W str till_le len_buf by (subst length_linear_copy) simp_all
    have loop2: "copy_loop ?buf1 str ?till len 0 =
            (linear_copy ?buf1 (unat (0 :: uint16_t)) (drop (unat ?till) (take ?L str)), len,
             0 + (len - ?till))"
      using str len1 till till_le L by (intro copy_loop_linear) simp_all
    have cc: "circular_copy ?buf ?W (take ?L str) =
            linear_copy ?buf1 0 (drop (512 - ?W) (take ?L str))"
    proof (cases "?W + ?L = 512")
      case True
      then have "512 - ?W = ?L"
        by simp
      then show ?thesis
        using True len_buf take_len by (simp add: circular_copy_def linear_copy_empty)
    next
      case False
      then have "512 < ?W + ?L"
        using ge by simp
      then show ?thesis
        using len_buf take_len till_le by (simp add: circular_copy_def min_def)
    qed
    show ?thesis
      using fits' nlt ne loop1 loop2 cc till
      by (simp add: enqueue_def Let_def ATOMIC_INCH_eq ATOMIC_DECH_eq)
  qed
qed

lemma length_circular_copy:
  assumes "pos < length buf" "length bytes \<le> length buf"
  shows "length (circular_copy buf pos bytes) = length buf"
  using assms by (auto simp add: circular_copy_def linear_copy_def)

lemma nth_circular_copy:
  assumes len: "length buf = 512" and pos: "pos < 512" and n: "length bytes \<le> 511"
    and j: "j < 512"
  shows "circular_copy buf pos bytes ! j =
           (if (j + 512 - pos) mod 512 < length bytes
            then bytes ! ((j + 512 - pos) mod 512) else buf ! j)"
proof (cases "pos \<le> j")
  case True
  then have d: "(j + 512 - pos) mod 512 = j - pos"
    using j by (simp add: occ_linear)
  show ?thesis
  proof (cases "pos + length bytes \<le> 512")
    case lin: True
    then show ?thesis
      using True len j d by (auto simp add: circular_copy_def linear_copy_def nth_append)
  next
    case wrap: False
    then show ?thesis
      using True len j d pos n
      by (auto simp add: circular_copy_def linear_copy_def nth_append min_def)
  qed
next
  case False
  then have d: "(j + 512 - pos) mod 512 = j + 512 - pos"
    using pos by (simp add: occ_wrapped)
  show ?thesis
  proof (cases "pos + length bytes \<le> 512")
    case lin: True
    then show ?thesis
      using False len j d by (auto simp add: circular_copy_def linear_copy_def nth_append)
  next
    case wrap: False
    have "512 + j - pos = j + 512 - pos"
      by simp
    then show ?thesis
      using wrap False len j d pos n
      by (auto simp add: circular_copy_def linear_copy_def nth_append min_def)
  qed
qed

lemma ring_back:
  fixes w i :: nat
  assumes "w < 512" "i < 512"
  shows "((w + i) mod 512 + 512 - w) mod 512 = i"
  using ring_advance [of w w i] assms by simp

lemma ring_forth:
  fixes w j :: nat
  assumes "w < 512" "j < 512"
  shows "(w + (j + 512 - w) mod 512) mod 512 = j"
proof (cases "w \<le> j")
  case True
  then show ?thesis using assms by (simp add: occ_linear)
next
  case False
  then have "(j + 512 - w) mod 512 = j + 512 - w"
    using assms by (simp add: occ_wrapped)
  moreover have "(w + (j + 512 - w)) mod 512 = j"
    using False assms by simp
  ultimately show ?thesis by simp
qed

text \<open>A reservation that changes the write cursor is one of a nonempty message that fits.\<close>

lemma enqueue_changed:
  assumes "logger_wf s" "m_write_pos (enqueue s str len in_isr) \<noteq> m_write_pos s"
  shows "len \<le> availableSpace s (m_write_pos s) \<and> len \<noteq> 0
       \<and> m_write_pos (enqueue s str len in_isr) = advancePos (m_write_pos s) len"
proof -
  have fits: "len \<le> availableSpace s (m_write_pos s)"
    and new: "m_write_pos (enqueue s str len in_isr) = advancePos (m_write_pos s) len"
    using assms(2) by (auto simp add: enqueue_write_pos split: if_splits)
  have "len \<noteq> 0"
  proof
    assume "len = 0"
    then have "unat (advancePos (m_write_pos s) len) = unat (m_write_pos s)"
      using assms(1) by (simp add: unat_advancePos logger_wf_nat)
    then show False
      using assms(2) new by (simp add: word_unat_eq_iff)
  qed
  then show ?thesis
    using fits new by simp
qed

lemma enqueue_success_buffer:
  assumes "logger_wf s" "len \<le> availableSpace s (m_write_pos s)" "len \<noteq> 0"
    "unat len \<le> length str"
  shows "m_send_buffer (enqueue s str len in_isr) =
           circular_copy (m_send_buffer s) (unat (m_write_pos s)) (take (unat len) str)"
  using assms by (simp add: enqueue_success process_frame)

section \<open>The copy of a message into the storage\<close>

text \<open>
  Claim C3. A call \<open>enqueue(str, length)\<close> whose reservation succeeds (it changes
  \<open>m_write_pos\<close>) stores \<open>str[i]\<close> at the index \<open>(old m_write_pos + i) mod
  SEND_BUFFER_SIZE\<close> for every \<open>i < length\<close>. The storage after the call is the circular
  copy of the specification: one linear copy when the destination range ends inside the
  storage, and two linear copies, up to the end of the storage and then from index 0,
  when it crosses the end. (When the range ends exactly at the end of the storage the
  code runs its pair of loops, the second of which copies no byte: that is the one linear
  copy.) The state is well formed and \<open>str\<close> holds \<open>length\<close> bytes.
\<close>

theorem enqueue_copies_message:
  assumes "logger_wf s" "unat len \<le> length str"
    and "m_write_pos (enqueue s str len in_isr) \<noteq> m_write_pos s"
  shows "(\<forall>i < unat len.
            m_send_buffer (enqueue s str len in_isr)
              ! ((unat (m_write_pos s) + i) mod unat SEND_BUFFER_SIZE) = str ! i)
       \<and> m_send_buffer (enqueue s str len in_isr) =
            circular_copy (m_send_buffer s) (unat (m_write_pos s)) (take (unat len) str)
       \<and> (unat (m_write_pos s) + unat len \<le> unat SEND_BUFFER_SIZE \<longrightarrow>
            m_send_buffer (enqueue s str len in_isr) =
              linear_copy (m_send_buffer s) (unat (m_write_pos s)) (take (unat len) str))
       \<and> (unat SEND_BUFFER_SIZE < unat (m_write_pos s) + unat len \<longrightarrow>
            m_send_buffer (enqueue s str len in_isr) =
              linear_copy
                (linear_copy (m_send_buffer s) (unat (m_write_pos s))
                   (take (unat SEND_BUFFER_SIZE - unat (m_write_pos s)) str))
                0 (drop (unat SEND_BUFFER_SIZE - unat (m_write_pos s)) (take (unat len) str)))"
proof -
  let ?W = "unat (m_write_pos s)" and ?L = "unat len" and ?buf = "m_send_buffer s"
  note ch = enqueue_changed [OF assms(1) assms(3)]
  have fits: "len \<le> availableSpace s (m_write_pos s)" and nz: "len \<noteq> 0"
    using ch by simp_all
  have buf: "m_send_buffer (enqueue s str len in_isr) = circular_copy ?buf ?W (take ?L str)"
    using assms(1) fits nz assms(2) by (rule enqueue_success_buffer)
  have W: "?W < 512" and len_buf: "length ?buf = 512"
    using assms(1) by (simp_all add: logger_wf_nat)
  have L: "?L \<le> 511"
    using fits_bound [OF assms(1) fits] by simp
  have take_len: "length (take ?L str) = ?L"
    using assms(2) by simp
  have nth: "circular_copy ?buf ?W (take ?L str) ! ((?W + i) mod 512) = str ! i"
    if "i < ?L" for i
  proof -
    have i: "i < 512"
      using that L by simp
    have "((?W + i) mod 512 + 512 - ?W) mod 512 = i"
      using W i by (rule ring_back)
    then show ?thesis
      using that take_len L len_buf W
      by (subst nth_circular_copy) simp_all
  qed
  have lin: "circular_copy ?buf ?W (take ?L str) = linear_copy ?buf ?W (take ?L str)"
    if "?W + ?L \<le> 512"
    using that len_buf take_len by (simp add: circular_copy_def)
  have wrap: "circular_copy ?buf ?W (take ?L str) =
      linear_copy (linear_copy ?buf ?W (take (512 - ?W) str)) 0 (drop (512 - ?W) (take ?L str))"
    if "512 < ?W + ?L"
  proof -
    have "512 - ?W \<le> ?L"
      using that by simp
    then have "take (512 - ?W) (take ?L str) = take (512 - ?W) str"
      by (simp add: min_def)
    then show ?thesis
      using that len_buf take_len by (simp add: circular_copy_def)
  qed
  show ?thesis
    using nth lin wrap by (simp add: buf unat_SEND_BUFFER_SIZE)
qed

text \<open>
  The instance: four bytes enqueued at write cursor 510 land at the indices 510, 511, 0
  and 1.
\<close>

theorem enqueue_copies_message_witness:
  "logger_wf ((init logger_global 1)\<lparr> m_read_pos := 100, m_write_pos := 510 \<rparr>)
   \<and> unat (4 :: uint16_t) \<le> length [65, 66, 67, 68 :: c_char]
   \<and> m_write_pos (enqueue ((init logger_global 1)\<lparr> m_read_pos := 100, m_write_pos := 510 \<rparr>)
         [65, 66, 67, 68] 4 False) = 2
   \<and> m_send_buffer (enqueue ((init logger_global 1)\<lparr> m_read_pos := 100, m_write_pos := 510 \<rparr>)
         [65, 66, 67, 68] 4 False) ! 510 = 65
   \<and> m_send_buffer (enqueue ((init logger_global 1)\<lparr> m_read_pos := 100, m_write_pos := 510 \<rparr>)
         [65, 66, 67, 68] 4 False) ! 511 = 66
   \<and> m_send_buffer (enqueue ((init logger_global 1)\<lparr> m_read_pos := 100, m_write_pos := 510 \<rparr>)
         [65, 66, 67, 68] 4 False) ! 0 = 67
   \<and> m_send_buffer (enqueue ((init logger_global 1)\<lparr> m_read_pos := 100, m_write_pos := 510 \<rparr>)
         [65, 66, 67, 68] 4 False) ! 1 = 68"
proof -
  let ?s = "(init logger_global 1)\<lparr> m_read_pos := 100, m_write_pos := 510 \<rparr>"
  let ?str = "[65, 66, 67, 68 :: c_char]"
  have wf: "logger_wf ?s"
    by (simp add: logger_wf_def init_def logger_global_def SEND_BUFFER_SIZE_def)
  have str: "unat (4 :: uint16_t) \<le> length ?str"
    by simp
  have av: "availableSpace ?s 510 = 101"
    by (simp add: availableSpace_def init_def SEND_BUFFER_SIZE_def)
  have ad: "advancePos 510 4 = 2"
    by (simp add: advancePos_def SEND_BUFFER_SIZE_def)
  have w: "m_write_pos (enqueue ?s ?str 4 False) = 2"
    using av by (simp add: enqueue_write_pos init_def ad)
  then have ch: "m_write_pos (enqueue ?s ?str 4 False) \<noteq> m_write_pos ?s"
    by (simp add: init_def)
  note t = enqueue_copies_message [OF wf str ch, THEN conjunct1, rule_format]
  have "m_send_buffer (enqueue ?s ?str 4 False) ! ((510 + 0) mod 512) = ?str ! 0"
    using t [of 0] by (simp add: init_def SEND_BUFFER_SIZE_def)
  moreover have "m_send_buffer (enqueue ?s ?str 4 False) ! ((510 + 1) mod 512) = ?str ! 1"
    using t [of 1] by (simp add: init_def SEND_BUFFER_SIZE_def)
  moreover have "m_send_buffer (enqueue ?s ?str 4 False) ! ((510 + 2) mod 512) = ?str ! 2"
    using t [of 2] by (simp add: init_def SEND_BUFFER_SIZE_def)
  moreover have "m_send_buffer (enqueue ?s ?str 4 False) ! ((510 + 3) mod 512) = ?str ! 3"
    using t [of 3] by (simp add: init_def SEND_BUFFER_SIZE_def)
  ultimately show ?thesis
    using wf str w by simp
qed

section \<open>What a successful enqueue changes\<close>





text \<open>The first message, enqueued from the main loop into the idle logger.\<close>

lemma first_message:
  "enqueue (init logger_global 1) [72, 105] 2 False =
     (init logger_global 1)
       \<lparr> m_write_pos := 2,
         m_send_buffer := circular_copy (m_send_buffer logger_global) 0 [72, 105],
         m_is_sending := True, m_new_read_pos := 2,
         hal_calls := [(0, 2)], hal_inflight := Some (0, 2) \<rparr>"
proof -
  let ?s = "init logger_global 1"
  have wf: "logger_wf ?s"
    by (simp add: logger_wf_def init_def logger_global_def SEND_BUFFER_SIZE_def)
  have fits: "2 \<le> availableSpace ?s (m_write_pos ?s)"
    by (simp add: availableSpace_def SEND_BUFFER_SIZE_def init_def logger_global_def)
  have ad: "advancePos 0 2 = 2"
    by (simp add: advancePos_def SEND_BUFFER_SIZE_def)
  have "enqueue ?s [72, 105] 2 False =
          process (?s\<lparr> m_write_pos := advancePos (m_write_pos ?s) 2,
            m_send_buffer := circular_copy (m_send_buffer ?s)
               (unat (m_write_pos ?s)) (take (unat (2 :: uint16_t)) [72, 105]) \<rparr>) False"
    using wf fits by (intro enqueue_success) simp_all
  then show ?thesis
    by (simp add: process_def startTransfer_linear init_def logger_global_def ad)
qed


section \<open>The read cursor along an execution\<close>

lemma occupied_self: "r < SEND_BUFFER_SIZE \<Longrightarrow> occupied r r = 0"
  by (simp add: occupied_zero)

lemma occupied_to_zero:
  assumes "w < r" "r < SEND_BUFFER_SIZE"
  shows "occupied r 0 \<le> occupied r w"
proof -
  have "unat w < unat r"
    using assms(1) by (simp add: word_less_nat_alt)
  moreover have "unat r < 512"
    using assms(2) by (simp add: lt_SEND_BUFFER_SIZE)
  ultimately show ?thesis
    by (simp add: occupied_nat occ_wrapped)
qed

lemma startTransfer_cursors:
  "m_new_read_pos (startTransfer s) =
     (if m_write_pos s \<noteq> m_read_pos s \<and> m_enqueue_guard s = 0
      then (if m_read_pos s < m_write_pos s then m_write_pos s else 0)
      else m_new_read_pos s)"
  by (simp add: startTransfer_def HAL_UART_Transmit_DMA_def Let_def)

lemma cursors_ok_startTransfer:
  assumes "cursors_ok s"
  shows "cursors_ok (startTransfer s)"
proof -
  have wf: "logger_wf (startTransfer s)"
    using assms by (simp add: cursors_ok_def logger_wf_def startTransfer_frame)
  have r: "m_read_pos s < SEND_BUFFER_SIZE" and w: "m_write_pos s < SEND_BUFFER_SIZE"
    using assms by (simp_all add: cursors_ok_def logger_wf_def)
  have z: "(0 :: uint16_t) < SEND_BUFFER_SIZE"
    by (simp add: SEND_BUFFER_SIZE_def)
  have "\<not> m_read_pos s < m_write_pos s \<Longrightarrow> m_write_pos s \<noteq> m_read_pos s \<Longrightarrow>
        m_write_pos s < m_read_pos s"
    by auto
  then show ?thesis
    using assms wf r w z
    by (auto simp add: cursors_ok_def startTransfer_cursors startTransfer_frame
          occupied_to_zero)
qed

lemma cursors_ok_process: "cursors_ok s \<Longrightarrow> cursors_ok (process s in_isr)"
  by (simp add: process_def cursors_ok_startTransfer)

lemma cursors_ok_callback:
  assumes "cursors_ok s"
  shows "cursors_ok (transferCompletedCallback s huart)"
proof (cases "huart = getUARTHandle s")
  case True
  have "cursors_ok (s\<lparr> m_read_pos := m_new_read_pos s \<rparr>)"
    using assms by (simp add: cursors_ok_def logger_wf_def occupied_self)
  then show ?thesis
    using True by (simp add: transferCompletedCallback_def cursors_ok_startTransfer)
next
  case False
  then show ?thesis
    using assms by (simp add: transferCompletedCallback_def)
qed

lemma callback_read_pos:
  "m_read_pos (transferCompletedCallback s huart) = m_read_pos s
   \<or> m_read_pos (transferCompletedCallback s huart) = m_new_read_pos s"
  by (simp add: transferCompletedCallback_def startTransfer_frame)

lemma cursors_ok_hal_fields:
  "cursors_ok (s\<lparr> hal_inflight := x, hal_wire := y \<rparr>) = cursors_ok s"
  by (simp add: cursors_ok_def logger_wf_def)

lemma cursors_ok_hal_complete: "cursors_ok s \<Longrightarrow> cursors_ok (hal_complete s)"
  by (simp add: hal_complete_def cursors_ok_callback cursors_ok_hal_fields
        split: option.splits)

lemma hal_complete_read_pos:
  "m_read_pos (hal_complete s) = m_read_pos s \<or> m_read_pos (hal_complete s) = m_new_read_pos s"
  using callback_read_pos [of "s\<lparr> hal_inflight := None, hal_wire := y \<rparr>" for y]
  by (auto simp add: hal_complete_def split: option.splits)

lemma enqueue_outcome:
  assumes "logger_wf s" "unat len \<le> length str"
  shows "(enqueue s str len in_isr =
            process (s\<lparr> m_missed_count := m_missed_count s + 1 \<rparr>) in_isr)
       \<or> (len \<le> availableSpace s (m_write_pos s) \<and> len \<noteq> 0
           \<and> enqueue s str len in_isr =
               process (s\<lparr> m_write_pos := advancePos (m_write_pos s) len,
                          m_send_buffer := circular_copy (m_send_buffer s)
                            (unat (m_write_pos s)) (take (unat len) str) \<rparr>) in_isr)"
proof (cases "len \<le> availableSpace s (m_write_pos s) \<and> len \<noteq> 0")
  case True
  then show ?thesis
    using assms by (simp add: enqueue_success)
next
  case False
  have "advancePos (m_write_pos s) 0 = m_write_pos s"
    using assms(1) by (simp add: word_unat_eq_iff unat_advancePos logger_wf_nat)
  then have "\<not> len \<le> availableSpace s (m_write_pos s)
           \<or> advancePos (m_write_pos s) len = m_write_pos s"
    using False by auto
  then show ?thesis
    by (simp add: enqueue_miss)
qed

lemma cursors_ok_enqueue:
  assumes "cursors_ok s" "unat len \<le> length str"
  shows "cursors_ok (enqueue s str len in_isr)"
proof -
  have wf: "logger_wf s"
    using assms(1) by (simp add: cursors_ok_def)
  from enqueue_outcome [OF wf assms(2), of in_isr] show ?thesis
  proof
    assume "enqueue s str len in_isr =
            process (s\<lparr> m_missed_count := m_missed_count s + 1 \<rparr>) in_isr"
    moreover have "cursors_ok (s\<lparr> m_missed_count := m_missed_count s + 1 \<rparr>)"
      using assms(1) by (simp add: cursors_ok_def logger_wf_def)
    ultimately show ?thesis
      by (simp add: cursors_ok_process)
  next
    let ?s' = "s\<lparr> m_write_pos := advancePos (m_write_pos s) len,
                  m_send_buffer := circular_copy (m_send_buffer s)
                    (unat (m_write_pos s)) (take (unat len) str) \<rparr>"
    assume a: "len \<le> availableSpace s (m_write_pos s) \<and> len \<noteq> 0
           \<and> enqueue s str len in_isr = process ?s' in_isr"
    from a have fits: "len \<le> availableSpace s (m_write_pos s)"
      by simp
    have L: "unat len \<le> 511"
      using fits_bound [OF wf fits] by simp
    have "length (circular_copy (m_send_buffer s) (unat (m_write_pos s)) (take (unat len) str))
            = length (m_send_buffer s)"
      using wf L assms(2) by (intro length_circular_copy) (simp_all add: logger_wf_nat)
    moreover have "occupied (m_read_pos s) (advancePos (m_write_pos s) len)
            = occupied (m_read_pos s) (m_write_pos s) + unat len"
      using wf a by (intro occupied_advance) (simp_all add: logger_wf_def)
    ultimately have "cursors_ok ?s'"
      using assms(1) by (simp add: cursors_ok_def logger_wf_def advancePos_lt)
    then show ?thesis
      using a by (simp add: cursors_ok_process)
  qed
qed

lemma step_cursors:
  assumes "logger_step s s'" "cursors_ok s"
  shows "cursors_ok s'
       \<and> (m_read_pos s' = m_read_pos s \<or> m_read_pos s' = m_new_read_pos s)"
  using assms
proof (cases)
  case (step_enqueue len str in_isr)
  then show ?thesis
    using assms(2) by (simp add: cursors_ok_enqueue enqueue_read_pos)
next
  case (step_process in_isr)
  then show ?thesis
    using assms(2) by (simp add: cursors_ok_process process_frame)
next
  case step_startTransfer
  then show ?thesis
    using assms(2) by (simp add: cursors_ok_startTransfer startTransfer_frame)
next
  case (step_callback huart)
  then show ?thesis
    using assms(2) callback_read_pos [of s huart] by (simp add: cursors_ok_callback)
next
  case step_complete
  then show ?thesis
    using assms(2) hal_complete_read_pos [of s] by (simp add: cursors_ok_hal_complete)
qed

lemma cursors_ok_init: "cursors_ok (init logger_global huart)"
  by (simp add: cursors_ok_def logger_wf_def init_def logger_global_def occupied_def
        SEND_BUFFER_SIZE_def)

lemma trace_cursors:
  assumes "trace xs"
  shows "\<exists>s tr. xs = s # tr \<and> cursors_ok s
          \<and> (if tr = [] then m_read_pos s = m_new_read_pos s
               else m_read_pos s \<in> m_new_read_pos ` set tr)
          \<and> (case tr of [] \<Rightarrow> True
               | p # _ \<Rightarrow> occupied (m_read_pos p) (m_read_pos s)
                            \<le> occupied (m_read_pos p) (m_write_pos p))"
  using assms
proof (induction rule: trace.induct)
  case (trace_init huart)
  show ?case
    by (simp add: cursors_ok_init) (simp add: init_def logger_global_def)
next
  case (trace_step s tr s')
  then have ok: "cursors_ok s"
    and prev: "if tr = [] then m_read_pos s = m_new_read_pos s
               else m_read_pos s \<in> m_new_read_pos ` set tr"
    by simp_all
  note st = step_cursors [OF trace_step.hyps(2) ok]
  have r: "m_read_pos s < SEND_BUFFER_SIZE"
    using ok by (simp add: cursors_ok_def logger_wf_def)
  have "m_read_pos s' \<in> m_new_read_pos ` set (s # tr)"
    using st prev by (cases "tr = []") auto
  moreover have "occupied (m_read_pos s) (m_read_pos s')
                   \<le> occupied (m_read_pos s) (m_write_pos s)"
    using st ok r by (auto simp add: cursors_ok_def occupied_self)
  ultimately show ?case
    using st by simp
qed

text \<open>
  Claim C6. Along every execution from the initial state, made of calls of \<open>enqueue\<close>,
  \<open>process\<close>, \<open>startTransfer\<close>, the completion callback and completions of transfers,
  \<open>m_read_pos\<close> only takes values that \<open>m_new_read_pos\<close> held in an earlier state (in
  the initial state both are 0), and it never advances past \<open>m_write_pos\<close>: a step takes
  it no further from its old value than the write cursor was, and the pending read
  cursor it will take next lies between it and the write cursor.
\<close>

theorem read_pos_follows_new_read_pos:
  assumes "trace (s # tr)"
  shows "(if tr = [] then m_read_pos s = m_new_read_pos s
          else m_read_pos s \<in> m_new_read_pos ` set tr)
       \<and> (case tr of [] \<Rightarrow> True
           | p # _ \<Rightarrow> occupied (m_read_pos p) (m_read_pos s)
                        \<le> occupied (m_read_pos p) (m_write_pos p))
       \<and> occupied (m_read_pos s) (m_new_read_pos s)
            \<le> occupied (m_read_pos s) (m_write_pos s)"
  using trace_cursors [OF assms] by (auto simp add: cursors_ok_def)

text \<open>
  The instance: a message of two bytes enqueued from the main loop, then the completion
  of its transfer, which takes the read cursor to the recorded 2.
\<close>

theorem read_pos_follows_new_read_pos_witness:
  "trace [hal_complete (enqueue (init logger_global 1) [72, 105] 2 False),
          enqueue (init logger_global 1) [72, 105] 2 False,
          init logger_global 1]
   \<and> m_new_read_pos (enqueue (init logger_global 1) [72, 105] 2 False) = 2
   \<and> m_read_pos (hal_complete (enqueue (init logger_global 1) [72, 105] 2 False)) = 2
   \<and> m_read_pos (hal_complete (enqueue (init logger_global 1) [72, 105] 2 False))
        \<in> m_new_read_pos ` set [enqueue (init logger_global 1) [72, 105] 2 False,
                                  init logger_global 1]
   \<and> occupied (m_read_pos (enqueue (init logger_global 1) [72, 105] 2 False))
         (m_read_pos (hal_complete (enqueue (init logger_global 1) [72, 105] 2 False)))
       \<le> occupied (m_read_pos (enqueue (init logger_global 1) [72, 105] 2 False))
            (m_write_pos (enqueue (init logger_global 1) [72, 105] 2 False))"
proof -
  let ?s0 = "init logger_global 1"
  let ?s1 = "enqueue ?s0 [72, 105] 2 False"
  let ?s2 = "hal_complete ?s1"
  have st: "logger_step ?s0 ?s1"
    by (rule step_enqueue) simp
  have "trace [?s1, ?s0]"
    using trace_init st by (rule trace_step)
  then have tr: "trace [?s2, ?s1, ?s0]"
    using step_complete by (rule trace_step)
  have n: "m_new_read_pos ?s1 = 2"
    unfolding first_message by simp
  have r: "m_read_pos ?s2 = 2"
    unfolding first_message
    by (simp add: hal_complete_def transferCompletedCallback_def
          getUARTHandle_def init_def startTransfer_frame)
  show ?thesis
    using tr n r read_pos_follows_new_read_pos [OF tr] by simp
qed

section \<open>The queued bytes\<close>

lemma ring_rev:
  fixes j m :: nat
  assumes "j < 512" "0 < m" "m < 512"
  shows "(j + 512 - (j + m) mod 512) mod 512 = 512 - m"
proof (cases "j + m < 512")
  case True
  then have "(j + m) mod 512 = j + m"
    by simp
  moreover have "j + 512 - (j + m) = 512 - m"
    using assms by simp
  ultimately show ?thesis
    using assms by simp
next
  case False
  then have "(j + m) mod 512 = j + m - 512"
    using assms by (simp add: mod512_once)
  moreover have "j + 512 - (j + m - 512) = 1024 - m"
    using assms False by simp
  moreover have "(1024 - m) mod 512 = 1024 - m - 512"
    using assms by (intro mod512_once) simp_all
  ultimately show ?thesis
    using assms by simp
qed

lemma ring_start_advance:
  fixes r w n :: nat
  assumes "r < 512" "w < 512" "n \<le> (w + 512 - r) mod 512"
  shows "(w + 512 - (r + n) mod 512) mod 512 = (w + 512 - r) mod 512 - n"
proof -
  let ?occ = "(w + 512 - r) mod 512"
  let ?j = "(r + n) mod 512"
  have occ: "?occ < 512"
    by simp
  have "(?j + (?occ - n)) mod 512 = (r + n + (?occ - n)) mod 512"
    by (simp add: mod_add_left_eq)
  also have "\<dots> = (r + ?occ) mod 512"
    using assms(3) by simp
  also have "\<dots> = w"
    using assms by (simp add: ring_forth)
  finally have w: "w = (?j + (?occ - n)) mod 512"
    by simp
  have "((?j + (?occ - n)) mod 512 + 512 - ?j) mod 512 = ?occ - n"
    using occ by (intro ring_back) simp_all
  then show ?thesis
    using w by simp
qed

lemma ring_index:
  fixes r w k :: nat
  assumes "r < 512" "w < 512" "k < 512"
  shows "((r + k) mod 512 + 512 - w) mod 512 =
           (if (w + 512 - r) mod 512 \<le> k then k - (w + 512 - r) mod 512
            else 512 - ((w + 512 - r) mod 512 - k))"
proof -
  let ?occ = "(w + 512 - r) mod 512"
  have occ: "?occ < 512"
    by simp
  have w: "(r + ?occ) mod 512 = w"
    using assms by (simp add: ring_forth)
  show ?thesis
  proof (cases "?occ \<le> k")
    case True
    have "(r + k) mod 512 = (r + ?occ + (k - ?occ)) mod 512"
      using True by simp
    also have "\<dots> = ((r + ?occ) mod 512 + (k - ?occ)) mod 512"
      by (simp add: mod_add_left_eq)
    finally have "(r + k) mod 512 = (w + (k - ?occ)) mod 512"
      using w by simp
    moreover have "((w + (k - ?occ)) mod 512 + 512 - w) mod 512 = k - ?occ"
      using assms by (intro ring_back) simp_all
    ultimately show ?thesis
      using True by simp
  next
    case False
    let ?j = "(r + k) mod 512"
    have "(?j + (?occ - k)) mod 512 = (r + k + (?occ - k)) mod 512"
      by (simp add: mod_add_left_eq)
    also have "\<dots> = w"
      using False w by simp
    finally have "w = (?j + (?occ - k)) mod 512"
      by simp
    moreover have "(?j + 512 - (?j + (?occ - k)) mod 512) mod 512 = 512 - (?occ - k)"
      using False occ by (intro ring_rev) simp_all
    ultimately show ?thesis
      using False by simp
  qed
qed

lemma length_ring_read: "length (ring_read buf start n) = n"
  by (simp add: ring_read_def)

lemma ring_read_zero: "ring_read buf start 0 = []"
  by (simp add: ring_read_def)

lemma ring_read_mod: "ring_read buf (start mod length buf) n = ring_read buf start n"
  by (simp add: ring_read_def mod_add_left_eq)

lemma ring_read_split:
  "ring_read buf start (a + b) = ring_read buf start a @ ring_read buf (start + a) b"
proof (rule nth_equalityI)
  show "length (ring_read buf start (a + b))
          = length (ring_read buf start a @ ring_read buf (start + a) b)"
    by (simp add: length_ring_read)
next
  fix i
  assume "i < length (ring_read buf start (a + b))"
  then have i: "i < a + b"
    by (simp add: length_ring_read)
  show "ring_read buf start (a + b) ! i
          = (ring_read buf start a @ ring_read buf (start + a) b) ! i"
  proof (cases "i < a")
    case True
    then show ?thesis
      using i by (simp add: nth_append length_ring_read) (simp add: ring_read_def)
  next
    case False
    then have e: "start + a + (i - a) = start + i" and lt: "i - a < b"
      using i by simp_all
    have "ring_read buf (start + a) b ! (i - a) = buf ! ((start + i) mod length buf)"
      using lt by (simp add: ring_read_def e)
    moreover have "ring_read buf start (a + b) ! i = buf ! ((start + i) mod length buf)"
      using i by (simp add: ring_read_def)
    ultimately show ?thesis
      using False by (simp add: nth_append length_ring_read)
  qed
qed

lemma ring_read_linear:
  assumes "start + n \<le> length buf"
  shows "ring_read buf start n = take n (drop start buf)"
proof (rule nth_equalityI)
  show "length (ring_read buf start n) = length (take n (drop start buf))"
    using assms by (simp add: length_ring_read)
next
  fix i
  assume "i < length (ring_read buf start n)"
  then have i: "i < n"
    by (simp add: length_ring_read)
  then have "start + i < length buf"
    using assms by simp
  then show "ring_read buf start n ! i = take n (drop start buf) ! i"
    using i by (simp add: ring_read_def)
qed

text \<open>Reading the region that a circular copy extends.\<close>

lemma ring_read_circular_copy:
  assumes len: "length buf = 512" and r: "r < 512" and w: "w < 512"
    and fits: "length bytes \<le> 511 - (w + 512 - r) mod 512"
  shows "ring_read (circular_copy buf w bytes) r ((w + 512 - r) mod 512 + length bytes)
           = ring_read buf r ((w + 512 - r) mod 512) @ bytes"
proof (rule nth_equalityI)
  show "length (ring_read (circular_copy buf w bytes) r ((w + 512 - r) mod 512 + length bytes))
          = length (ring_read buf r ((w + 512 - r) mod 512) @ bytes)"
    by (simp add: length_ring_read)
next
  let ?occ = "(w + 512 - r) mod 512"
  fix k
  assume "k < length (ring_read (circular_copy buf w bytes) r (?occ + length bytes))"
  then have k: "k < ?occ + length bytes"
    by (simp add: length_ring_read)
  have occ: "?occ < 512"
    by simp
  have n: "length bytes \<le> 511"
    using fits by simp
  have k512: "k < 512"
    using k fits occ by simp
  have len': "length (circular_copy buf w bytes) = 512"
    using len w n by (simp add: length_circular_copy)
  let ?j = "(r + k) mod 512"
  have j: "?j < 512"
    by simp
  have d: "(?j + 512 - w) mod 512 = (if ?occ \<le> k then k - ?occ else 512 - (?occ - k))"
    using r w k512 by (rule ring_index)
  have "circular_copy buf w bytes ! ?j =
          (if ?occ \<le> k then bytes ! (k - ?occ) else buf ! ?j)"
  proof (cases "?occ \<le> k")
    case True
    then have "k - ?occ < length bytes"
      using k by simp
    then show ?thesis
      using True d len w n j by (simp add: nth_circular_copy)
  next
    case False
    then have "\<not> 512 - (?occ - k) < length bytes"
      using fits by simp
    then show ?thesis
      using False d len w n j by (simp add: nth_circular_copy)
  qed
  then show "ring_read (circular_copy buf w bytes) r (?occ + length bytes) ! k
          = (ring_read buf r ?occ @ bytes) ! k"
    using k len len' by (simp add: ring_read_def nth_append)
qed

section \<open>Runs of whole calls\<close>

lemma run_inv_wf: "run_inv s \<Longrightarrow> logger_wf s"
  by (simp add: run_inv_def)

lemma pending_cong:
  "m_send_buffer s' = m_send_buffer s \<Longrightarrow> m_read_pos s' = m_read_pos s \<Longrightarrow>
   m_write_pos s' = m_write_pos s \<Longrightarrow> pending s' = pending s"
  by (simp add: pending_def)

text \<open>The reservation and the copy of a message that fits.\<close>

lemma enqueue_store_inv:
  assumes inv: "run_inv s" and fits: "len \<le> availableSpace s (m_write_pos s)"
    and str: "unat len \<le> length str"
  defines "s1 \<equiv> s\<lparr> m_write_pos := advancePos (m_write_pos s) len,
                     m_send_buffer := circular_copy (m_send_buffer s)
                       (unat (m_write_pos s)) (take (unat len) str) \<rparr>"
  shows "run_inv s1 \<and> pending s1 = pending s @ take (unat len) str"
proof -
  have wf: "logger_wf s"
    using inv by (rule run_inv_wf)
  have W: "unat (m_write_pos s) < 512" and R: "unat (m_read_pos s) < 512"
    and len_buf: "length (m_send_buffer s) = 512"
    using wf by (simp_all add: logger_wf_nat)
  have bound: "unat len \<le> 511 - (unat (m_write_pos s) + 512 - unat (m_read_pos s)) mod 512"
    using wf fits by (rule fits_bound)
  then have L: "unat len \<le> 511"
    by simp
  have take_len: "length (take (unat len) str) = unat len"
    using str by simp
  have occ: "occupied (m_read_pos s) (advancePos (m_write_pos s) len)
               = occupied (m_read_pos s) (m_write_pos s) + unat len"
    using wf fits by (intro occupied_advance) (simp_all add: logger_wf_def)
  have len': "length (m_send_buffer s1) = 512"
    using W L len_buf take_len by (simp add: s1_def length_circular_copy)
  have wf1: "logger_wf s1"
    using wf len' by (simp add: s1_def logger_wf_def advancePos_lt unat_SEND_BUFFER_SIZE)
  have "run_inv s1"
    using inv wf1 occ by (auto simp add: run_inv_def s1_def split: option.splits)
  moreover have "pending s1 = pending s @ take (unat len) str"
    using ring_read_circular_copy [OF len_buf R W, of "take (unat len) str"] bound take_len
    by (simp add: pending_def s1_def occ) (simp add: occupied_nat)
  ultimately show ?thesis
    by simp
qed

text \<open>\<open>startTransfer\<close> while the transmitter is free.\<close>

lemma startTransfer_inv:
  assumes wf: "logger_wf s" and guard: "m_enqueue_guard s = 0"
    and free: "hal_inflight s = None"
  shows "run_inv (startTransfer s) \<and> settled (startTransfer s)
       \<and> pending (startTransfer s) = pending s
       \<and> hal_wire (startTransfer s) = hal_wire s"
proof -
  have W: "unat (m_write_pos s) < 512" and R: "unat (m_read_pos s) < 512"
    using wf by (simp_all add: logger_wf_nat)
  have wf': "logger_wf (startTransfer s)"
    using wf by (simp add: logger_wf_def startTransfer_frame)
  have p: "pending (startTransfer s) = pending s"
    by (simp add: pending_def startTransfer_frame)
  consider (empty) "m_write_pos s = m_read_pos s"
    | (linear) "m_read_pos s < m_write_pos s"
    | (wrapped) "m_write_pos s < m_read_pos s"
    by (metis linorder_neqE)
  then have "run_inv (startTransfer s) \<and> settled (startTransfer s)"
  proof cases
    case empty
    then have "startTransfer s = s\<lparr> m_is_sending := False \<rparr>"
      by (simp add: startTransfer_nothing)
    then show ?thesis
      using wf guard free empty by (simp add: run_inv_def settled_def logger_wf_def)
  next
    case linear
    then have lt: "unat (m_read_pos s) < unat (m_write_pos s)"
      by (simp add: word_less_nat_alt)
    then have occ: "occupied (m_read_pos s) (m_write_pos s)
                      = unat (m_write_pos s) - unat (m_read_pos s)"
      using W by (simp add: occupied_nat occ_linear)
    show ?thesis
      using wf' guard free lt W occ
      by (simp add: startTransfer_linear [OF linear guard] run_inv_def settled_def
            logger_wf_def unat_SEND_BUFFER_SIZE)
  next
    case wrapped
    then have lt: "unat (m_write_pos s) < unat (m_read_pos s)"
      by (simp add: word_less_nat_alt)
    then have occ: "occupied (m_read_pos s) (m_write_pos s)
                      = unat (m_write_pos s) + 512 - unat (m_read_pos s)"
      using R by (simp add: occupied_nat occ_wrapped)
    have r: "m_read_pos s < SEND_BUFFER_SIZE"
      using wf by (simp add: logger_wf_def)
    show ?thesis
      using wf' guard free lt R occ
      by (simp add: startTransfer_wrapped [OF wrapped guard r] run_inv_def settled_def
            logger_wf_def unat_SEND_BUFFER_SIZE)
  qed
  then show ?thesis
    using p by (simp add: startTransfer_frame)
qed

lemma run_inv_idle: "run_inv s \<Longrightarrow> \<not> m_is_sending s \<Longrightarrow> hal_inflight s = None"
  by (cases "hal_inflight s") (simp_all add: run_inv_def)

lemma run_inv_busy: "run_inv s \<Longrightarrow> m_is_sending s \<Longrightarrow> hal_inflight s \<noteq> None"
  by (cases "hal_inflight s") (simp_all add: run_inv_def)

lemma run_inv_guard: "run_inv s \<Longrightarrow> m_enqueue_guard s = 0"
  by (simp add: run_inv_def)

lemma process_inv:
  assumes "run_inv s"
  shows "run_inv (process s in_isr) \<and> pending (process s in_isr) = pending s
       \<and> hal_wire (process s in_isr) = hal_wire s"
proof (cases "m_is_sending s \<or> in_isr")
  case True
  then show ?thesis
    using assms by (simp add: process_def)
next
  case False
  then have "hal_inflight s = None"
    using assms by (simp add: run_inv_idle)
  then show ?thesis
    using False startTransfer_inv [OF run_inv_wf [OF assms] run_inv_guard [OF assms]]
    by (simp add: process_def)
qed

lemma process_settled:
  assumes "run_inv s"
  shows "settled (process s False)"
proof (cases "m_is_sending s")
  case True
  then show ?thesis
    using run_inv_busy [OF assms] by (cases "hal_inflight s") (simp_all add: process_def settled_def)
next
  case False
  then have "hal_inflight s = None"
    using assms by (simp add: run_inv_idle)
  then show ?thesis
    using False startTransfer_inv [OF run_inv_wf [OF assms] run_inv_guard [OF assms]]
    by (simp add: process_def)
qed

lemma startTransfer_inflight:
  assumes "hal_inflight s = None" "m_enqueue_guard s = 0"
  shows "hal_inflight (startTransfer s) = None \<longleftrightarrow> m_write_pos s = m_read_pos s"
  using assms by (simp add: startTransfer_def HAL_UART_Transmit_DMA_def Let_def)

lemma transfers_left_startTransfer:
  assumes "hal_inflight s = None" "m_enqueue_guard s = 0"
  shows "transfers_left (startTransfer s) =
           (if m_write_pos s = m_read_pos s then 0
            else if m_read_pos s < m_write_pos s then 1
            else if m_write_pos s = 0 then 1 else 2)"
proof -
  have "0 < m_write_pos s" if "m_write_pos s \<noteq> 0"
    using that by (simp add: word_gt_0)
  then show ?thesis
    using assms startTransfer_inflight [OF assms]
    by (cases "hal_inflight (startTransfer s)")
      (auto simp add: transfers_left_def startTransfer_cursors startTransfer_frame)
qed

lemma hal_complete_inv:
  assumes inv: "run_inv s"
  shows "run_inv (hal_complete s)
       \<and> hal_wire (hal_complete s) @ pending (hal_complete s) = hal_wire s @ pending s
       \<and> (settled s \<longrightarrow> settled (hal_complete s))
       \<and> transfers_left (hal_complete s) \<le> transfers_left s - 1"
proof (cases "hal_inflight s")
  case None
  then show ?thesis
    using inv by (simp add: hal_complete_def transfers_left_def)
next
  case (Some q)
  obtain offset n where q: "q = (offset, n)"
    by (cases q)
  let ?buf = "m_send_buffer s" and ?R = "unat (m_read_pos s)"
  let ?occ = "occupied (m_read_pos s) (m_write_pos s)"
  have wf: "logger_wf s" and guard: "m_enqueue_guard s = 0"
    using inv by (simp_all add: run_inv_def)
  have W: "unat (m_write_pos s) < 512" and R: "?R < 512" and len_buf: "length ?buf = 512"
    using wf by (simp_all add: logger_wf_nat)
  have off: "offset = ?R" and n: "0 < n" and lin: "?R + n \<le> 512" and le: "n \<le> ?occ"
    and nr: "unat (m_new_read_pos s) = (?R + n) mod 512"
    using inv Some q by (simp_all add: run_inv_def unat_SEND_BUFFER_SIZE)
  define s2 where "s2 = s\<lparr> hal_inflight := None,
      hal_wire := hal_wire s @ take n (drop offset ?buf),
      m_read_pos := m_new_read_pos s \<rparr>"
  have hc: "hal_complete s = startTransfer s2"
    using Some q
    by (simp add: hal_complete_def transferCompletedCallback_def getUARTHandle_def s2_def)
  have nr_lt: "unat (m_new_read_pos s) < 512"
    using nr by simp
  have wf2: "logger_wf s2"
    using wf nr_lt by (simp add: s2_def logger_wf_nat)
  have free2: "hal_inflight s2 = None" and guard2: "m_enqueue_guard s2 = 0"
    using guard by (simp_all add: s2_def)
  note st = startTransfer_inv [OF wf2 guard2 free2]
  have occ2: "occupied (m_new_read_pos s) (m_write_pos s) = ?occ - n"
    using ring_start_advance [OF R W, of n] le by (simp add: occupied_nat nr)
  have "ring_read ?buf ?R (n + (?occ - n))
          = ring_read ?buf ?R n @ ring_read ?buf (?R + n) (?occ - n)"
    by (rule ring_read_split)
  moreover have "ring_read ?buf ?R n = take n (drop ?R ?buf)"
    using lin len_buf by (intro ring_read_linear) simp
  moreover have "ring_read ?buf ((?R + n) mod length ?buf) (?occ - n)
          = ring_read ?buf (?R + n) (?occ - n)"
    by (rule ring_read_mod)
  ultimately have "pending s = take n (drop ?R ?buf) @ pending s2"
    using le len_buf by (simp add: pending_def s2_def occ2 nr)
  then have total: "hal_wire s2 @ pending s2 = hal_wire s @ pending s"
    by (simp add: s2_def off)
  have tl2: "transfers_left (startTransfer s2) =
           (if m_write_pos s = m_new_read_pos s then 0
            else if m_new_read_pos s < m_write_pos s then 1
            else if m_write_pos s = 0 then 1 else 2)"
    using transfers_left_startTransfer [OF free2 guard2] by (simp add: s2_def)
  have tl: "transfers_left s =
           (if m_new_read_pos s = m_write_pos s then 1
            else if m_new_read_pos s < m_write_pos s then 2 else 3)"
    using Some by (simp add: transfers_left_def)
  have left: "transfers_left (startTransfer s2) \<le> transfers_left s - 1"
    unfolding tl2 tl by auto
  show ?thesis
    using st total left by (simp add: hc)
qed

lemma run_inv_missed: "run_inv (s\<lparr> m_missed_count := c \<rparr>) = run_inv s"
  by (cases "hal_inflight s") (simp_all add: run_inv_def logger_wf_def)

lemma apply_event_inv:
  assumes inv: "run_inv s" and fits: "event_fits s e"
  shows "run_inv (apply_event s e)
       \<and> hal_wire (apply_event s e) @ pending (apply_event s e)
           = hal_wire s @ pending s @ messages [e]"
proof (cases e)
  case (Enqueue str len in_isr)
  have wf: "logger_wf s"
    using inv by (rule run_inv_wf)
  have f: "len \<le> availableSpace s (m_write_pos s)" and str: "unat len \<le> length str"
    using fits Enqueue by simp_all
  show ?thesis
  proof (cases "len = 0")
    case True
    have "advancePos (m_write_pos s) 0 = m_write_pos s"
      using wf by (simp add: word_unat_eq_iff unat_advancePos logger_wf_nat)
    then have eq: "enqueue s str len in_isr =
             process (s\<lparr> m_missed_count := m_missed_count s + 1 \<rparr>) in_isr"
      using True by (simp add: enqueue_miss)
    have ev: "apply_event s e = process (s\<lparr> m_missed_count := m_missed_count s + 1 \<rparr>) in_isr"
      using Enqueue eq by simp
    have msg: "messages [e] = []"
      using Enqueue True by simp
    have same: "pending (s\<lparr> m_missed_count := m_missed_count s + 1 \<rparr>) = pending s"
      by (simp add: pending_def)
    have "run_inv (s\<lparr> m_missed_count := m_missed_count s + 1 \<rparr>)"
      using inv by (simp add: run_inv_missed)
    from process_inv [OF this, of in_isr] show ?thesis
      by (simp add: ev msg same)
  next
    case False
    let ?s1 = "s\<lparr> m_write_pos := advancePos (m_write_pos s) len,
                 m_send_buffer := circular_copy (m_send_buffer s)
                   (unat (m_write_pos s)) (take (unat len) str) \<rparr>"
    have eq: "enqueue s str len in_isr = process ?s1 in_isr"
      using wf f False str by (rule enqueue_success)
    note store = enqueue_store_inv [OF inv f str]
    from store have "run_inv ?s1"
      by simp
    from process_inv [OF this, of in_isr] show ?thesis
      using store Enqueue by (simp add: eq)
  qed
next
  case (Process in_isr)
  then show ?thesis
    using process_inv [OF inv, of in_isr] by simp
next
  case TransferComplete
  then show ?thesis
    using hal_complete_inv [OF inv] by simp
qed

lemma messages_Cons: "messages (e # es) = messages [e] @ messages es"
  by (cases e) simp_all

lemma run_total:
  "run_inv s \<Longrightarrow> run_fits s evs \<Longrightarrow>
   run_inv (run s evs)
   \<and> hal_wire (run s evs) @ pending (run s evs) = hal_wire s @ pending s @ messages evs"
proof (induction evs arbitrary: s)
  case Nil
  then show ?case
    by simp
next
  case (Cons e es)
  from Cons.prems have fits: "event_fits s e" and rest: "run_fits (apply_event s e) es"
    by simp_all
  note one = apply_event_inv [OF Cons.prems(1) fits]
  from one have "run_inv (apply_event s e)"
    by simp
  from Cons.IH [OF this rest] one show ?case
    by (simp add: messages_Cons [of e es])
qed

lemma transfers_left_le: "transfers_left s \<le> 3"
  by (simp add: transfers_left_def split: option.splits)

lemma transfers_left_zero: "transfers_left s = 0 \<Longrightarrow> hal_inflight s = None"
  by (simp add: transfers_left_def split: option.splits if_splits)

lemma settled_empty:
  assumes "logger_wf s" "settled s" "hal_inflight s = None"
  shows "pending s = []"
proof -
  have "m_write_pos s = m_read_pos s"
    using assms by (simp add: settled_def)
  then have "occupied (m_read_pos s) (m_write_pos s) = 0"
    using assms(1) by (simp add: occupied_self logger_wf_def)
  then show ?thesis
    by (simp add: pending_def ring_read_zero)
qed

lemma drain_empties:
  assumes inv: "run_inv s"
  shows "hal_wire (drain s) = hal_wire s @ pending s"
proof -
  let ?s1 = "process s False"
  let ?s2 = "hal_complete ?s1"
  let ?s3 = "hal_complete ?s2"
  let ?s4 = "hal_complete ?s3"
  note p = process_inv [OF inv, of False]
  have i1: "run_inv ?s1" and t1: "hal_wire ?s1 @ pending ?s1 = hal_wire s @ pending s"
    using p by simp_all
  have d1: "settled ?s1"
    using inv by (rule process_settled)
  note c2 = hal_complete_inv [OF i1]
  have i2: "run_inv ?s2" and d2: "settled ?s2"
    using c2 d1 by simp_all
  have "transfers_left ?s2 \<le> transfers_left ?s1 - 1"
    using c2 by simp
  then have l2: "transfers_left ?s2 \<le> 2"
    using transfers_left_le [of ?s1] by linarith
  note c3 = hal_complete_inv [OF i2]
  have i3: "run_inv ?s3" and d3: "settled ?s3"
    using c3 d2 by simp_all
  have "transfers_left ?s3 \<le> transfers_left ?s2 - 1"
    using c3 by simp
  then have l3: "transfers_left ?s3 \<le> 1"
    using l2 by linarith
  note c4 = hal_complete_inv [OF i3]
  have i4: "run_inv ?s4" and d4: "settled ?s4"
    using c4 d3 by simp_all
  have "transfers_left ?s4 \<le> transfers_left ?s3 - 1"
    using c4 by simp
  then have l4: "transfers_left ?s4 = 0"
    using l3 by linarith
  have "pending ?s4 = []"
    using run_inv_wf [OF i4] d4 transfers_left_zero [OF l4] by (rule settled_empty)
  moreover have "hal_wire ?s4 @ pending ?s4 = hal_wire s @ pending s"
    using c2 c3 c4 t1 by simp
  ultimately show ?thesis
    by (simp add: drain_def)
qed

lemma run_inv_init: "run_inv (init logger_global huart)"
  by (simp add: run_inv_def logger_wf_def init_def logger_global_def SEND_BUFFER_SIZE_def)

lemma pending_init: "pending (init logger_global huart) = []"
  by (simp add: pending_def init_def logger_global_def occupied_def ring_read_def)

text \<open>
  The bytes of the request in progress are not touched by an \<open>enqueue\<close> that fits: the
  transmitter sends the same bytes whenever it reads them between the request and its
  completion.
\<close>

lemma ring_read_take:
  assumes "n \<le> m"
  shows "take n (ring_read buf start m) = ring_read buf start n"
proof -
  have "ring_read buf start (n + (m - n))
          = ring_read buf start n @ ring_read buf (start + n) (m - n)"
    by (rule ring_read_split)
  then show ?thesis
    using assms by (simp add: length_ring_read)
qed

lemma inflight_bytes_stable:
  assumes inv: "run_inv s" and fits: "len \<le> availableSpace s (m_write_pos s)"
    and str: "unat len \<le> length str" and req: "hal_inflight s = Some (offset, n)"
  shows "hal_inflight (enqueue s str len in_isr) = Some (offset, n)
       \<and> take n (drop offset (m_send_buffer (enqueue s str len in_isr)))
           = take n (drop offset (m_send_buffer s))"
proof -
  have wf: "logger_wf s"
    using inv by (rule run_inv_wf)
  have busy: "m_is_sending s"
    using inv req by (simp add: run_inv_def)
  have len_buf: "length (m_send_buffer s) = 512"
    using wf by (simp add: logger_wf_nat)
  have off: "offset = unat (m_read_pos s)" and lin: "offset + n \<le> 512"
    and le: "n \<le> occupied (m_read_pos s) (m_write_pos s)"
    using inv req by (simp_all add: run_inv_def unat_SEND_BUFFER_SIZE)
  show ?thesis
  proof (cases "len = 0")
    case True
    have "advancePos (m_write_pos s) 0 = m_write_pos s"
      using wf by (simp add: word_unat_eq_iff unat_advancePos logger_wf_nat)
    then have "enqueue s str len in_isr =
             process (s\<lparr> m_missed_count := m_missed_count s + 1 \<rparr>) in_isr"
      using True by (simp add: enqueue_miss)
    then show ?thesis
      using busy req by (simp add: process_def)
  next
    case False
    let ?s1 = "s\<lparr> m_write_pos := advancePos (m_write_pos s) len,
                 m_send_buffer := circular_copy (m_send_buffer s)
                   (unat (m_write_pos s)) (take (unat len) str) \<rparr>"
    have eq: "enqueue s str len in_isr = process ?s1 in_isr"
      using wf fits False str by (rule enqueue_success)
    then have same: "enqueue s str len in_isr = ?s1"
      using busy by (simp add: process_def)
    note store = enqueue_store_inv [OF inv fits str]
    have len1: "length (m_send_buffer ?s1) = 512"
      using store by (simp add: run_inv_def logger_wf_nat)
    have "take n (drop offset (m_send_buffer ?s1)) = ring_read (m_send_buffer ?s1) offset n"
      using lin len1 by (intro ring_read_linear [symmetric]) simp
    also have "\<dots> = take n (pending ?s1)"
      using le by (simp add: pending_def off ring_read_take occupied_advance [OF _ _ fits]
            wf [unfolded logger_wf_def])
    also have "\<dots> = take n (pending s)"
      using store le by (simp add: pending_def length_ring_read)
    also have "\<dots> = ring_read (m_send_buffer s) offset n"
      using le by (simp add: pending_def off ring_read_take)
    also have "\<dots> = take n (drop offset (m_send_buffer s))"
      using lin len_buf by (intro ring_read_linear) simp
    finally show ?thesis
      using req by (simp add: same)
  qed
qed

section \<open>Every message is transmitted once, in order\<close>

text \<open>
  Claim C1. Take any sequence of calls made one after the other from the initial state:
  calls of \<open>enqueue\<close> and \<open>process\<close>, from the main loop or from interrupt handlers,
  with completions of transfers in between, where every \<open>enqueue\<close> call has a length of
  at most the available space at the time of the call. The transmitted byte stream is
  made of the byte ranges handed to the transmitter by \<open>startTransfer\<close>, in the order of
  the requests. Once the transmitter has been left to finish, that stream is the
  concatenation of the enqueued messages in call order, which for sequential calls is the
  order of the reservations: every message is in it exactly once, byte for byte. Before
  that, the stream is a prefix of this concatenation.
\<close>

theorem messages_transmitted_in_order:
  assumes "run_fits (init logger_global huart) evs"
  shows "hal_wire (drain (run (init logger_global huart) evs)) = messages evs
       \<and> (\<exists>rest. messages evs = hal_wire (run (init logger_global huart) evs) @ rest)"
proof -
  note t = run_total [OF run_inv_init assms]
  have w0: "hal_wire (init logger_global huart) = []"
    by (simp add: init_def logger_global_def)
  have total: "hal_wire (run (init logger_global huart) evs)
                 @ pending (run (init logger_global huart) evs) = messages evs"
    using t by (simp add: w0 pending_init)
  have "hal_wire (drain (run (init logger_global huart) evs)) = messages evs"
    using t total by (simp add: drain_empties)
  moreover have "\<exists>rest. messages evs = hal_wire (run (init logger_global huart) evs) @ rest"
    using total by metis
  ultimately show ?thesis
    by simp
qed

text \<open>
  The instance: \<open>ABCDE\<close> enqueued from the main loop, \<open>FG\<close> enqueued from an interrupt
  handler while the first transfer is in progress, and the completion of that transfer.
\<close>

theorem messages_transmitted_in_order_witness:
  "run_fits (init logger_global 3)
     [Enqueue [65, 66, 67, 68, 69] 5 False, Enqueue [70, 71] 2 True, TransferComplete]
   \<and> hal_wire (drain (run (init logger_global 3)
        [Enqueue [65, 66, 67, 68, 69] 5 False, Enqueue [70, 71] 2 True, TransferComplete]))
       = [65, 66, 67, 68, 69, 70, 71]"
proof -
  let ?s0 = "init logger_global 3"
  let ?evs = "[Enqueue [65, 66, 67, 68, 69] 5 False, Enqueue [70, 71] 2 True,
               TransferComplete]"
  have a0: "availableSpace ?s0 0 = 511"
    by (simp add: availableSpace_def init_def logger_global_def SEND_BUFFER_SIZE_def)
  have ad: "advancePos 0 5 = 5"
    by (simp add: advancePos_def SEND_BUFFER_SIZE_def)
  let ?s1 = "enqueue ?s0 [65, 66, 67, 68, 69] 5 False"
  have w1: "m_write_pos ?s1 = 5"
    using a0 by (simp add: enqueue_write_pos init_def logger_global_def ad)
  have a1: "availableSpace ?s1 5 = 506"
    by (simp add: availableSpace_def enqueue_read_pos init_def logger_global_def
          SEND_BUFFER_SIZE_def)
  have f0: "event_fits ?s0 (Enqueue [65, 66, 67, 68, 69] 5 False)"
    using a0 by (simp add: init_def logger_global_def)
  have f1: "event_fits ?s1 (Enqueue [70, 71] 2 True)"
    by (simp add: w1 a1)
  have fits: "run_fits ?s0 ?evs"
    using f0 f1 by simp
  show ?thesis
    using fits messages_transmitted_in_order [OF fits, THEN conjunct1] by simp
qed

end
